theory Spec2Isabelle
  imports Complex_Main "HOL-Library.Word"
begin

section \<open>JavaScript strings\<close>

text \<open>
  A JavaScript string is a sequence of UTF-16 code units. String literals of the
  source are ASCII; \<open>js\<close> turns an ASCII literal into its code units.
\<close>

type_synonym jsstring = "16 word list"

definition js :: "string \<Rightarrow> jsstring" where
  "js s = map of_char s"

text \<open>
  The code units removed by \<open>String.prototype.trim\<close>, \<open>trimStart\<close> and
  \<open>trimEnd\<close>: the WhiteSpace and LineTerminator productions of ECMAScript
  (TAB, LF, VT, FF, CR, SP, NBSP, the Unicode space separators, LS, PS and the
  byte order mark).
\<close>

definition isWhiteSpace :: "16 word \<Rightarrow> bool" where
  "isWhiteSpace c \<longleftrightarrow>
     c \<in> set [0x09, 0x0A, 0x0B, 0x0C, 0x0D, 0x20, 0xA0, 0x1680,
               0x2028, 0x2029, 0x202F, 0x205F, 0x3000, 0xFEFF]
     \<or> (0x2000 \<le> c \<and> c \<le> 0x200A)"

definition trimStart :: "jsstring \<Rightarrow> jsstring" where
  "trimStart s = dropWhile isWhiteSpace s"

definition trimEnd :: "jsstring \<Rightarrow> jsstring" where
  "trimEnd s = rev (dropWhile isWhiteSpace (rev s))"

definition trim :: "jsstring \<Rightarrow> jsstring" where
  "trim s = trimEnd (trimStart s)"

text \<open>\<open>s.split(sep)\<close> for a separator of one code unit; the result is never empty.\<close>

fun split :: "'a \<Rightarrow> 'a list \<Rightarrow> 'a list list" where
  "split sep [] = [[]]"
| "split sep (c # cs) =
     (if c = sep then [] # split sep cs
      else (case split sep cs of [] \<Rightarrow> [[c]] | l # ls \<Rightarrow> (c # l) # ls))"

definition startsWith :: "'a list \<Rightarrow> 'a list \<Rightarrow> bool" where
  "startsWith s p \<longleftrightarrow> take (length p) s = p"

definition endsWith :: "'a list \<Rightarrow> 'a list \<Rightarrow> bool" where
  "endsWith s p \<longleftrightarrow> length p \<le> length s \<and> drop (length s - length p) s = p"

text \<open>\<open>s.includes(t)\<close>: \<open>t\<close> occurs in \<open>s\<close> as a contiguous substring.\<close>

fun includes_sub :: "'a list \<Rightarrow> 'a list \<Rightarrow> bool" where
  "includes_sub [] t = (t = [])"
| "includes_sub (c # cs) t = (startsWith (c # cs) t \<or> includes_sub cs t)"

text \<open>
  \<open>s.replace(/\/$/, '')\<close>: the pattern has no flags, so \<open>$\<close> matches at the end of
  the input only and at most one trailing slash is removed.
\<close>

definition replace_trailing_slash :: "jsstring \<Rightarrow> jsstring" where
  "replace_trailing_slash s = (if endsWith s (js ''/'') then butlast s else s)"

text \<open>The decimal rendering of a non-negative integer, as in a template literal.\<close>

fun toString_nat :: "nat \<Rightarrow> jsstring" where
  "toString_nat n =
     (if n < 10 then [of_nat (48 + n)]
      else toString_nat (n div 10) @ [of_nat (48 + n mod 10)])"

declare toString_nat.simps [simp del]


section \<open>The structure parser (hooks/useFileOperations.ts)\<close>

datatype item_type = File | Directory

record DirectoryStructureItem =
  dsi_path :: jsstring
  dsi_type :: item_type
  dsi_depth :: nat
  dsi_name :: jsstring

text \<open>The body of the \<open>forEach\<close> over the kept lines: it pushes at most one item.\<close>

definition parse_line ::
  "DirectoryStructureItem list \<Rightarrow> jsstring \<Rightarrow> DirectoryStructureItem list" where
  "parse_line items line =
     (let leadingSpaces = length line - length (trimStart line);
          depth = leadingSpaces div 2;
          name = trim line;
          isDirectory = endsWith name (js ''/'');
          cleanName = replace_trailing_slash name
      in if cleanName \<noteq> []
         then items @ [\<lparr>dsi_path = cleanName,
                         dsi_type = (if isDirectory then Directory else File),
                         dsi_depth = depth,
                         dsi_name = cleanName\<rparr>]
         else items)"

definition parseStructureDefinition :: "jsstring \<Rightarrow> DirectoryStructureItem list" where
  "parseStructureDefinition definition =
     (let lines = filter (\<lambda>line. trim line \<noteq> [] \<and> \<not> startsWith (trim line) (js ''#''))
                    (split 0x0A definition)
      in foldl parse_line [] lines)"

text \<open>
  The parser in the words of the specification: split on line breaks, discard the
  lines that are empty after trimming or are comments, and turn each remaining line
  into a node.
\<close>

definition spec_node :: "jsstring \<Rightarrow> DirectoryStructureItem" where
  "spec_node line =
     \<lparr>dsi_path = replace_trailing_slash (trim line),
      dsi_type = (if endsWith (trim line) (js ''/'') then Directory else File),
      dsi_depth = (length (takeWhile isWhiteSpace line)) div 2,
      dsi_name = replace_trailing_slash (trim line)\<rparr>"

definition spec_discarded :: "jsstring \<Rightarrow> bool" where
  "spec_discarded line \<longleftrightarrow> trim line = [] \<or> startsWith (trim line) (js ''#'')"

definition spec_parse :: "jsstring \<Rightarrow> DirectoryStructureItem list" where
  "spec_parse text = map spec_node (filter (\<lambda>line. \<not> spec_discarded line) (split 0x0A text))"


section \<open>The skeleton builder (SmartOrganizeTab)\<close>

datatype file_status = Staged | Assigned | Organized

record StagedFile =
  sf_id :: jsstring
  sf_name :: jsstring
  sf_path :: jsstring
  sf_size :: nat
  sf_type :: jsstring
  sf_status :: file_status
  sf_targetPath :: "jsstring option"

datatype slot_status = Empty | SlotAssigned | AutoMatched

text \<open>
  A slot refers to its assigned file by reference: \<open>ts_assignedFile\<close> is the address
  of the file object in the store.
\<close>

record TargetSlot =
  ts_id :: jsstring
  ts_path :: jsstring
  ts_type :: item_type
  ts_assignedFile :: "nat option"
  ts_status :: slot_status
  ts_confidence :: "real option"

text \<open>The body of \<open>lines.forEach((line, index) => ...)\<close>.\<close>

definition build_line :: "TargetSlot list \<Rightarrow> nat \<times> jsstring \<Rightarrow> TargetSlot list" where
  "build_line slots il =
     (let index = fst il; line = snd il; trimmed = trim line
      in if trimmed \<noteq> [] \<and> \<not> startsWith trimmed (js ''#'')
         then (let isDirectory = endsWith trimmed (js ''/'');
                   path = replace_trailing_slash trimmed
               in if \<not> isDirectory
                  then slots @ [\<lparr>ts_id = js ''slot_'' @ toString_nat index,
                                  ts_path = path,
                                  ts_type = File,
                                  ts_assignedFile = None,
                                  ts_status = Empty,
                                  ts_confidence = None\<rparr>]
                  else slots)
         else slots)"

definition nonblank_lines :: "jsstring \<Rightarrow> jsstring list" where
  "nonblank_lines targetStructure = filter (\<lambda>line. trim line \<noteq> []) (split 0x0A targetStructure)"

text \<open>
  \<open>buildTargetStructure\<close> returns early, leaving the slots as they were (\<open>None\<close>), when
  the definition is blank; otherwise it replaces the slots.
\<close>

definition buildTargetStructure :: "jsstring \<Rightarrow> TargetSlot list option" where
  "buildTargetStructure targetStructure =
     (if trim targetStructure = [] then None
      else Some (foldl build_line [] (enumerate 0 (nonblank_lines targetStructure))))"

text \<open>The slot a file line produces, and the tokens that are file lines.\<close>

definition slot_of :: "nat \<Rightarrow> jsstring \<Rightarrow> TargetSlot" where
  "slot_of i t = \<lparr>ts_id = js ''slot_'' @ toString_nat i, ts_path = t, ts_type = File,
                  ts_assignedFile = None, ts_status = Empty, ts_confidence = None\<rparr>"

definition is_file_token :: "jsstring \<Rightarrow> bool" where
  "is_file_token t \<longleftrightarrow> t \<noteq> [] \<and> \<not> startsWith t (js ''#'') \<and> \<not> endsWith t (js ''/'')"

text \<open>
  The file lines of a definition, in order: each with its index among the lines that
  are not blank, and with its trimmed text.
\<close>

definition file_lines :: "jsstring \<Rightarrow> (nat \<times> jsstring) list" where
  "file_lines d =
     filter (\<lambda>(i, t). is_file_token t) (enumerate 0 (map trim (nonblank_lines d)))"


section \<open>The batch executor and the archiver (hooks/useFileOperations.ts)\<close>

text \<open>
  \<open>simulateFileOperation\<close> receives \<open>items: any[]\<close>. It reads only \<open>name\<close> and
  \<open>path\<close> of an item; reading a property of \<open>null\<close> or \<open>undefined\<close> throws a
  \<open>TypeError\<close>. Everything else an item carries (its source, its target) is the
  payload \<open>obj_rest\<close>, which the function never looks at.
\<close>

datatype 'a item = Nullish | Obj (obj_name: "jsstring option") (obj_path: "jsstring option") (obj_rest: 'a)

datatype error = TypeError | Thrown jsstring

text \<open>\<open>items[i].name || items[i].path || 'item'\<close>: a missing or empty string is falsy.\<close>

fun truthy :: "jsstring option \<Rightarrow> bool" where
  "truthy None = False"
| "truthy (Some s) = (s \<noteq> [])"

fun item_label :: "'a item \<Rightarrow> error + jsstring" where
  "item_label Nullish = Inl TypeError"
| "item_label (Obj n p r) =
     Inr (if truthy n then the n else if truthy p then the p else js ''item'')"

record progress_event =
  pe_progress :: real
  pe_message :: jsstring

text \<open>
  The optional progress callback: \<open>None\<close> when the caller passes none; a callback
  returns \<open>None\<close> when it returns normally and \<open>Some e\<close> when it throws \<open>e\<close>.
\<close>

type_synonym callback = "(real \<Rightarrow> jsstring \<Rightarrow> error option) option"

datatype operation_status = OpSuccess | OpError | OpPending

datatype result = Success (processedCount: nat) | Failure error

record outcome =
  oc_result :: result
  oc_calls :: "progress_event list"
  oc_status :: operation_status

text \<open>
  The \<open>for\<close> loop inside the \<open>try\<close> block, from index \<open>i\<close> on: \<open>len\<close> is
  \<open>items.length\<close>, \<open>calls\<close> the callback invocations made so far. The first
  exception ends the loop.
\<close>

fun process_items ::
  "callback \<Rightarrow> nat \<Rightarrow> nat \<Rightarrow> 'a item list \<Rightarrow> progress_event list
     \<Rightarrow> error option \<times> progress_event list" where
  "process_items cb len i [] calls = (None, calls)"
| "process_items cb len i (x # xs) calls =
     (case item_label x of
        Inl e \<Rightarrow> (Some e, calls)
      | Inr label \<Rightarrow>
          (let progress = (real (i + 1) / real len) * 100;
               message = js ''Processing '' @ toString_nat (i + 1) @ js ''/''
                           @ toString_nat len @ js '': '' @ label;
               call = \<lparr>pe_progress = progress, pe_message = message\<rparr>
           in case cb of
                None \<Rightarrow> process_items cb len (i + 1) xs calls
              | Some f \<Rightarrow>
                  (case f progress message of
                     Some e \<Rightarrow> (Some e, calls @ [call])
                   | None \<Rightarrow> process_items cb len (i + 1) xs (calls @ [call]))))"

text \<open>
  The \<open>try\<close>/\<open>catch\<close> around the loop: a normal end returns
  \<open>{success: true, processedCount}\<close>, any exception returns \<open>{success: false, error}\<close>;
  the operation record ends as \<open>success\<close> or \<open>error\<close>.
\<close>

definition simulateFileOperation :: "jsstring \<Rightarrow> 'a item list \<Rightarrow> callback \<Rightarrow> outcome" where
  "simulateFileOperation operationType items onProgress =
     (case process_items onProgress (length items) 0 items [] of
        (None, calls) \<Rightarrow>
          \<lparr>oc_result = Success (length items), oc_calls = calls, oc_status = OpSuccess\<rparr>
      | (Some e, calls) \<Rightarrow>
          \<lparr>oc_result = Failure e, oc_calls = calls, oc_status = OpError\<rparr>)"

text \<open>An assignment \<open>{source, target}\<close> of the plan; it has neither \<open>name\<close> nor \<open>path\<close>.\<close>

record 'f assignment =
  asg_source :: 'f
  asg_target :: jsstring

definition assignment_item :: "'f assignment \<Rightarrow> 'f assignment item" where
  "assignment_item a = Obj None None a"

text \<open>The file handed to the browser for download: the \<open>Blob\<close> and the \<open>download\<close> name.\<close>

record download =
  dl_filename :: jsstring
  dl_mime :: jsstring
  dl_content :: jsstring

definition package_blob :: jsstring where
  "package_blob = js ''# Package Contents\<newline>\<newline>This is a simulated package file.''"

definition createPackage ::
  "'f assignment list \<Rightarrow> jsstring \<Rightarrow> callback \<Rightarrow> outcome \<times> download option" where
  "createPackage assignments packageName onProgress =
     (let result = simulateFileOperation (js ''create_package'')
                     (map assignment_item assignments) onProgress
      in case oc_result result of
           Success n \<Rightarrow>
             (result, Some \<lparr>dl_filename = packageName @ js ''.zip'',
                            dl_mime = js ''application/zip'',
                            dl_content = package_blob\<rparr>)
         | Failure e \<Rightarrow> (result, None))"

definition organizeFiles ::
  "'f assignment list \<Rightarrow> jsstring \<Rightarrow> jsstring \<Rightarrow> callback \<Rightarrow> outcome" where
  "organizeFiles assignments baseDirectory operation onProgress =
     simulateFileOperation (js ''organize_'' @ operation) (map assignment_item assignments) onProgress"

definition never_throws :: "callback \<Rightarrow> bool" where
  "never_throws cb \<longleftrightarrow> (case cb of None \<Rightarrow> True | Some f \<Rightarrow> \<forall>p m. f p m = None)"

text \<open>The callbacks of the component only store the progress for display.\<close>

definition display_progress :: "real \<Rightarrow> jsstring \<Rightarrow> error option" where
  "display_progress p m = None"


section \<open>The assignment store (SmartOrganizeTab)\<close>

text \<open>
  File objects are shared: the array \<open>stagedFiles\<close> and the field \<open>assignedFile\<close> of a
  slot hold references to the same objects, and auto-matching mutates them in place.
  The store keeps the objects in \<open>heap\<close>, an object's address being its index; a new
  object is appended.
\<close>

record store =
  heap :: "StagedFile list"
  stagedFiles :: "nat list"
  targetStructure :: jsstring
  targetSlots :: "TargetSlot list"

definition initial_store :: store where
  "initial_store = \<lparr>heap = [], stagedFiles = [], targetStructure = [], targetSlots = []\<rparr>"

text \<open>
  \<open>addFilesToStage\<close>: \<open>now1\<close> and \<open>now2\<close> are the values of the two calls of
  \<open>Date.now()\<close>, in order, \<open>size1\<close> and \<open>size2\<close> the two random sizes.
\<close>

definition addFilesToStage :: "nat \<Rightarrow> nat \<Rightarrow> nat \<Rightarrow> nat \<Rightarrow> store \<Rightarrow> store" where
  "addFilesToStage now1 now2 size1 size2 s =
     (let n = toString_nat (length (stagedFiles s) + 1);
          newFiles =
            [\<lparr>sf_id = toString_nat now1,
              sf_name = js ''document_'' @ n @ js ''.pdf'',
              sf_path = js ''/files/document_'' @ n @ js ''.pdf'',
              sf_size = size1,
              sf_type = js ''application/pdf'',
              sf_status = Staged,
              sf_targetPath = None\<rparr>,
             \<lparr>sf_id = toString_nat (now2 + 1),
              sf_name = js ''image_'' @ n @ js ''.jpg'',
              sf_path = js ''/files/image_'' @ n @ js ''.jpg'',
              sf_size = size2,
              sf_type = js ''image/jpeg'',
              sf_status = Staged,
              sf_targetPath = None\<rparr>]
      in s\<lparr>heap := heap s @ newFiles,
           stagedFiles := stagedFiles s @ [length (heap s), length (heap s) + 1]\<rparr>)"

definition buildTargetStructure_op :: "store \<Rightarrow> store" where
  "buildTargetStructure_op s =
     (case buildTargetStructure (targetStructure s) of
        None \<Rightarrow> s
      | Some slots \<Rightarrow> s\<lparr>targetSlots := slots\<rparr>)"

text \<open>
  The loop state of \<open>autoAssignFiles\<close>: the slots, the file objects and
  \<open>assignedCount\<close>. \<open>Math.random()\<close> is called once for each match, so its
  \<open>assignedCount\<close>-th result of the pass is \<open>rnd assignedCount\<close>.
  \<open>toLowerCase\<close> is the case mapping of the JavaScript engine.
\<close>

record assign_state =
  as_slots :: "TargetSlot list"
  as_heap :: "StagedFile list"
  as_count :: nat

definition matches ::
  "(jsstring \<Rightarrow> jsstring) \<Rightarrow> StagedFile list \<Rightarrow> jsstring \<Rightarrow> nat \<Rightarrow> bool" where
  "matches toLowerCase h targetExt a \<longleftrightarrow>
     sf_status (h ! a) = Staged \<and> includes_sub (toLowerCase (sf_name (h ! a))) targetExt"

definition assign_step ::
  "(jsstring \<Rightarrow> jsstring) \<Rightarrow> (nat \<Rightarrow> real) \<Rightarrow> nat list \<Rightarrow> assign_state \<Rightarrow> nat \<Rightarrow> assign_state" where
  "assign_step toLowerCase rnd files st i =
     (let slot = as_slots st ! i
      in if ts_status slot = Empty
         then (let targetExt = toLowerCase (last (split 0x2E (ts_path slot)))
               in case find (matches toLowerCase (as_heap st) targetExt) files of
                    None \<Rightarrow> st
                  | Some a \<Rightarrow>
                      \<lparr>as_slots = (as_slots st)
                         [i := slot\<lparr>ts_assignedFile := Some a,
                                    ts_status := AutoMatched,
                                    ts_confidence := Some (75 + rnd (as_count st) * 20)\<rparr>],
                       as_heap = (as_heap st)
                         [a := (as_heap st ! a)\<lparr>sf_status := Assigned,
                                                 sf_targetPath := Some (ts_path slot)\<rparr>],
                       as_count = as_count st + 1\<rparr>)
         else st)"

definition autoAssignFiles ::
  "(jsstring \<Rightarrow> jsstring) \<Rightarrow> (nat \<Rightarrow> real) \<Rightarrow> store \<Rightarrow> store" where
  "autoAssignFiles toLowerCase rnd s =
     (if stagedFiles s = [] \<or> targetSlots s = [] then s
      else (let st = foldl (assign_step toLowerCase rnd (stagedFiles s))
                       \<lparr>as_slots = targetSlots s, as_heap = heap s, as_count = 0\<rparr>
                       [0..<length (targetSlots s)]
            in s\<lparr>targetSlots := as_slots st, heap := as_heap st\<rparr>))"

text \<open>The plan read off the slots: one assignment for each slot that holds a file.\<close>

definition assignments_of :: "TargetSlot list \<Rightarrow> nat assignment list" where
  "assignments_of slots =
     map (\<lambda>slot. \<lparr>asg_source = the (ts_assignedFile slot), asg_target = ts_path slot\<rparr>)
       (filter (\<lambda>slot. ts_assignedFile slot \<noteq> None) slots)"

text \<open>
  \<open>stagedFiles.map(file => assignment ? {...file, status: 'organized'} : file)\<close>:
  a file whose id is the id of an assigned file is replaced by a new object.
\<close>

definition organized_copy ::
  "StagedFile list \<Rightarrow> nat assignment list \<Rightarrow> nat \<Rightarrow> nat \<times> StagedFile option" where
  "organized_copy h assignments a =
     (case find (\<lambda>asg. sf_id (h ! asg_source asg) = sf_id (h ! a)) assignments of
        Some asg \<Rightarrow> (a, Some ((h ! a)\<lparr>sf_status := Organized\<rparr>))
      | None \<Rightarrow> (a, None))"

fun alloc_copies :: "StagedFile list \<Rightarrow> (nat \<times> StagedFile option) list \<Rightarrow> StagedFile list \<times> nat list" where
  "alloc_copies h [] = (h, [])"
| "alloc_copies h ((a, None) # xs) =
     (case alloc_copies h xs of (h', as) \<Rightarrow> (h', a # as))"
| "alloc_copies h ((a, Some f) # xs) =
     (case alloc_copies (h @ [f]) xs of (h', as) \<Rightarrow> (h', length h # as))"

definition organizeAssignedFiles :: "store \<Rightarrow> store" where
  "organizeAssignedFiles s =
     (let assignments = assignments_of (targetSlots s)
      in if assignments = [] then s
         else (case oc_result (organizeFiles assignments (js ''/organized'') (js ''copy'')
                                 (Some display_progress)) of
                 Success n \<Rightarrow>
                   (case alloc_copies (heap s)
                           (map (organized_copy (heap s) assignments) (stagedFiles s)) of
                      (h', files') \<Rightarrow> s\<lparr>heap := h', stagedFiles := files'\<rparr>)
               | Failure e \<Rightarrow> s))"

text \<open>
  The events of the component and the states they lead to from the initial one. Each
  handler is one step: it runs to its end before the next event is handled.
\<close>

datatype event =
    AddFiles nat nat nat nat
  | SetTargetStructure jsstring
  | BuildTargetStructure
  | AutoAssign "nat \<Rightarrow> real"
  | OrganizeAssigned

fun step :: "(jsstring \<Rightarrow> jsstring) \<Rightarrow> store \<Rightarrow> event \<Rightarrow> store" where
  "step lc s (AddFiles now1 now2 size1 size2) = addFilesToStage now1 now2 size1 size2 s"
| "step lc s (SetTargetStructure text) = s\<lparr>targetStructure := text\<rparr>"
| "step lc s BuildTargetStructure = buildTargetStructure_op s"
| "step lc s (AutoAssign rnd) = autoAssignFiles lc rnd s"
| "step lc s OrganizeAssigned = organizeAssignedFiles s"

definition run :: "(jsstring \<Rightarrow> jsstring) \<Rightarrow> event list \<Rightarrow> store" where
  "run lc events = foldl (step lc) initial_store events"

text \<open>The files held by slots, as object addresses and as ids.\<close>

definition assigned_files :: "store \<Rightarrow> nat list" where
  "assigned_files s = map asg_source (assignments_of (targetSlots s))"

definition assigned_ids :: "store \<Rightarrow> jsstring list" where
  "assigned_ids s = map (\<lambda>a. sf_id (heap s ! a)) (assigned_files s)"

definition staged_ids :: "store \<Rightarrow> jsstring list" where
  "staged_ids s = map (\<lambda>a. sf_id (heap s ! a)) (stagedFiles s)"

text \<open>\<open>toLowerCase\<close> on the letters A to Z; it is the engine's mapping on ASCII strings.\<close>

definition ascii_toLowerCase :: "jsstring \<Rightarrow> jsstring" where
  "ascii_toLowerCase s = map (\<lambda>c. if 0x41 \<le> c \<and> c \<le> 0x5A then c + 0x20 else c) s"

text \<open>
  A source of random numbers given by its first results: \<open>draws xs k\<close> is the
  \<open>k\<close>-th result of \<open>Math.random()\<close>.
\<close>

definition draws :: "real list \<Rightarrow> nat \<Rightarrow> real" where
  "draws xs k = (if k < length xs then xs ! k else 0)"

text \<open>A slot without its confidence: the pair of slot and file that a pass proposes.\<close>

definition proposal :: "TargetSlot \<Rightarrow> TargetSlot" where
  "proposal slot = slot\<lparr>ts_confidence := None\<rparr>"

text \<open>Scenario B: the pool holds \<open>invoice_final.pdf\<close>, the only slot is \<open>invoice.pdf\<close>.\<close>

definition scenario_B :: store where
  "scenario_B =
     \<lparr>heap = [\<lparr>sf_id = js ''1'', sf_name = js ''invoice_final.pdf'',
               sf_path = js ''/files/invoice_final.pdf'', sf_size = 1000,
               sf_type = js ''application/pdf'', sf_status = Staged, sf_targetPath = None\<rparr>],
      stagedFiles = [0],
      targetStructure = js ''invoice.pdf'',
      targetSlots = [slot_of 0 (js ''invoice.pdf'')]\<rparr>"

text \<open>
  A session of the component: two files are staged, a structure with three file
  lines is entered and built, and one auto-match pass runs. \<open>example_store\<close> is the
  state it ends in.
\<close>

definition example_events :: "event list" where
  "example_events =
     [AddFiles 1000 1000 10 20,
      SetTargetStructure (js ''docs/\<newline>  a.pdf\<newline>  b.jpg\<newline>  c.pdf''),
      BuildTargetStructure,
      AutoAssign (draws [1/2, 1/4])]"

definition example_store :: store where
  "example_store =
     \<lparr>heap = [\<lparr>sf_id = js ''1000'', sf_name = js ''document_1.pdf'',
               sf_path = js ''/files/document_1.pdf'', sf_size = 10,
               sf_type = js ''application/pdf'', sf_status = Assigned,
               sf_targetPath = Some (js ''a.pdf'')\<rparr>,
              \<lparr>sf_id = js ''1001'', sf_name = js ''image_1.jpg'',
               sf_path = js ''/files/image_1.jpg'', sf_size = 20,
               sf_type = js ''image/jpeg'', sf_status = Assigned,
               sf_targetPath = Some (js ''b.jpg'')\<rparr>],
      stagedFiles = [0, 1],
      targetStructure = js ''docs/\<newline>  a.pdf\<newline>  b.jpg\<newline>  c.pdf'',
      targetSlots =
        [\<lparr>ts_id = js ''slot_1'', ts_path = js ''a.pdf'', ts_type = File,
          ts_assignedFile = Some 0, ts_status = AutoMatched, ts_confidence = Some 85\<rparr>,
         \<lparr>ts_id = js ''slot_2'', ts_path = js ''b.jpg'', ts_type = File,
          ts_assignedFile = Some 1, ts_status = AutoMatched, ts_confidence = Some 80\<rparr>,
         \<lparr>ts_id = js ''slot_3'', ts_path = js ''c.pdf'', ts_type = File,
          ts_assignedFile = None, ts_status = Empty, ts_confidence = None\<rparr>]\<rparr>"


section \<open>Invariants of the auto-match loop\<close>

text \<open>
  \<open>matched_from\<close>: the slot \<open>new\<close> is the empty slot \<open>old\<close> after a match, with a
  file that was staged in the file objects \<open>h0\<close> and whose lower-cased name contains
  the lower-cased extension of the slot, and with the confidence of one of the first
  \<open>bound\<close> random results.
\<close>

definition matched_from ::
  "(jsstring \<Rightarrow> jsstring) \<Rightarrow> (nat \<Rightarrow> real) \<Rightarrow> nat list \<Rightarrow> StagedFile list \<Rightarrow> nat
     \<Rightarrow> TargetSlot \<Rightarrow> TargetSlot \<Rightarrow> bool" where
  "matched_from lc rnd files h0 bound old new \<longleftrightarrow>
     ts_status old = Empty \<and>
     (\<exists>a k. new = old\<lparr>ts_assignedFile := Some a, ts_status := AutoMatched,
                       ts_confidence := Some (75 + rnd k * 20)\<rparr>
        \<and> k < bound \<and> a \<in> set files \<and> sf_status (h0 ! a) = Staged
        \<and> includes_sub (lc (sf_name (h0 ! a))) (lc (last (split 0x2E (ts_path old)))))"

definition pass_inv ::
  "(jsstring \<Rightarrow> jsstring) \<Rightarrow> (nat \<Rightarrow> real) \<Rightarrow> nat list \<Rightarrow> StagedFile list \<Rightarrow> TargetSlot list
     \<Rightarrow> assign_state \<Rightarrow> bool" where
  "pass_inv lc rnd files h0 slots0 st \<longleftrightarrow>
     length (as_slots st) = length slots0 \<and>
     length (as_heap st) = length h0 \<and>
     (\<forall>a. sf_name (as_heap st ! a) = sf_name (h0 ! a)) \<and>
     (\<forall>a. sf_status (as_heap st ! a) = Staged \<longrightarrow> sf_status (h0 ! a) = Staged) \<and>
     (\<forall>a. sf_status (h0 ! a) \<noteq> Staged \<longrightarrow> as_heap st ! a = h0 ! a) \<and>
     (\<forall>i < length slots0. as_slots st ! i = slots0 ! i
          \<or> matched_from lc rnd files h0 (as_count st) (slots0 ! i) (as_slots st ! i))"

text \<open>Two loop states that differ in the confidence values of their slots only.\<close>

definition same_proposals :: "assign_state \<Rightarrow> assign_state \<Rightarrow> bool" where
  "same_proposals st1 st2 \<longleftrightarrow>
     as_heap st1 = as_heap st2 \<and> as_count st1 = as_count st2
     \<and> map proposal (as_slots st1) = map proposal (as_slots st2)"


section \<open>The invariant of the assignment store\<close>

text \<open>The addresses of the file objects that the slots hold, in slot order.\<close>

definition held_files :: "TargetSlot list \<Rightarrow> nat list" where
  "held_files slots = map asg_source (assignments_of slots)"

text \<open>
  The invariant of the file objects \<open>h\<close>, the pool \<open>pool\<close> and the slots: the pool
  refers to existing objects; the objects held by slots exist, have the status
  \<open>assigned\<close> and are pairwise different; every object has a position in the pool
  that carries its id and holds either the object itself or an organized copy; and
  when the ids of the pool are pairwise different, so are the ids of the objects with
  status \<open>assigned\<close>.
\<close>

definition store_inv :: "StagedFile list \<Rightarrow> nat list \<Rightarrow> TargetSlot list \<Rightarrow> bool" where
  "store_inv h pool slots \<longleftrightarrow>
     (\<forall>a \<in> set pool. a < length h) \<and>
     (\<forall>a \<in> set (held_files slots). a < length h \<and> sf_status (h ! a) = Assigned) \<and>
     distinct (held_files slots) \<and>
     (\<forall>a < length h. \<exists>j < length pool.
        sf_id (h ! (pool ! j)) = sf_id (h ! a)
        \<and> (pool ! j = a \<or> sf_status (h ! (pool ! j)) = Organized)) \<and>
     (distinct (map (\<lambda>a. sf_id (h ! a)) pool) \<longrightarrow>
        (\<forall>a < length h. \<forall>b < length h.
           sf_status (h ! a) = Assigned \<longrightarrow> sf_status (h ! b) = Assigned \<longrightarrow>
           sf_id (h ! a) = sf_id (h ! b) \<longrightarrow> a = b))"

text \<open>
  A session in which the clock reads 1000 at the first staging and 1001 at the
  second, so that the second file of the first staging and the first file of the
  second one get the same id.
\<close>

definition collision_events :: "event list" where
  "collision_events =
     [AddFiles 1000 1000 10 20,
      AddFiles 1001 1001 30 40,
      SetTargetStructure (js ''a.pdf\<newline>b.jpg\<newline>c.pdf''),
      BuildTargetStructure,
      AutoAssign (draws [])]"


section \<open>Facts about strings\<close>

lemma js_slash: "js ''/'' = [0x2F]"
  by (simp add: js_def)

lemma js_hash: "js ''#'' = [0x23]"
  by (simp add: js_def)

lemma leading_count:
  "length line - length (trimStart line) = length (takeWhile isWhiteSpace line)"
proof -
  have "length (takeWhile isWhiteSpace line) + length (dropWhile isWhiteSpace line) = length line"
    by (metis length_append takeWhile_dropWhile_id)
  then show ?thesis by (simp add: trimStart_def)
qed

lemma replace_trailing_slash_empty:
  "replace_trailing_slash s = [] \<longleftrightarrow> s = [] \<or> s = js ''/''"
proof (cases s rule: rev_cases)
  case Nil
  then show ?thesis by (simp add: replace_trailing_slash_def)
next
  case (snoc ys y)
  then show ?thesis
    by (auto simp: replace_trailing_slash_def endsWith_def js_slash)
qed

lemma set_split_subset: "l \<in> set (split sep s) \<Longrightarrow> set l \<subseteq> set s"
proof (induction s arbitrary: l)
  case Nil
  then show ?case by simp
next
  case (Cons a s)
  show ?case
  proof (cases "a = sep")
    case True
    with Cons show ?thesis by auto
  next
    case False
    obtain h t where ht: "split sep s = h # t"
      by (cases "split sep s") (auto split: if_splits list.splits elim: split.elims)
    from Cons.IH [of h] ht have "set h \<subseteq> set s" by simp
    moreover from Cons.IH ht have "\<forall>l' \<in> set t. set l' \<subseteq> set s" by simp
    ultimately show ?thesis using Cons.prems False ht by auto
  qed
qed

lemma set_split_cover: "c \<in> set s \<Longrightarrow> c \<noteq> sep \<Longrightarrow> \<exists>l \<in> set (split sep s). c \<in> set l"
  by (induction s) (auto split: if_splits list.splits)

lemma dropWhile_all_iff:
  "(\<forall>x \<in> set (dropWhile P s). P x) \<longleftrightarrow> (\<forall>x \<in> set s. P x)"
proof
  assume a: "\<forall>x \<in> set (dropWhile P s). P x"
  have "dropWhile P s = []"
  proof (rule ccontr)
    assume ne: "dropWhile P s \<noteq> []"
    then have "\<not> P (hd (dropWhile P s))" by (rule hd_dropWhile)
    moreover have "hd (dropWhile P s) \<in> set (dropWhile P s)" using ne by (rule hd_in_set)
    ultimately show False using a by blast
  qed
  then show "\<forall>x \<in> set s. P x" by (simp add: dropWhile_eq_Nil_conv)
next
  assume "\<forall>x \<in> set s. P x"
  then show "\<forall>x \<in> set (dropWhile P s). P x" by (blast dest: set_dropWhileD)
qed

lemma trim_empty_iff: "trim s = [] \<longleftrightarrow> (\<forall>c \<in> set s. isWhiteSpace c)"
  by (simp add: trim_def trimEnd_def trimStart_def dropWhile_eq_Nil_conv dropWhile_all_iff)

lemma newline_white: "isWhiteSpace 0x0A"
  by (simp add: isWhiteSpace_def)


section \<open>The parser\<close>

lemma parse_line_spec:
  "parse_line items line =
     (if replace_trailing_slash (trim line) \<noteq> [] then items @ [spec_node line] else items)"
  by (simp add: parse_line_def spec_node_def Let_def leading_count)

lemma foldl_parse_line:
  "foldl parse_line acc ls =
     acc @ map spec_node (filter (\<lambda>l. replace_trailing_slash (trim l) \<noteq> []) ls)"
  by (induction ls arbitrary: acc) (simp_all add: parse_line_spec)

text \<open>
  Claim C7, as the code has it. The parser splits the text at line feeds and drops
  every line that is empty after trimming or whose trimmed form starts with \<open>#\<close>;
  it also drops a line whose trimmed form is the single character \<open>/\<close>, since its
  token is empty once the separator is stripped. Each line that is left gives one
  node, in order: the depth is the number of leading whitespace characters divided
  by 2 and rounded down, the node is a directory exactly when the trimmed token ends
  with \<open>/\<close>, and path and name are the token without that one trailing separator.
\<close>

theorem parser_characterisation:
  "parseStructureDefinition text =
     map spec_node
       (filter (\<lambda>line. \<not> spec_discarded line \<and> trim line \<noteq> js ''/'') (split 0x0A text))"
  by (simp add: parseStructureDefinition_def foldl_parse_line spec_discarded_def
      replace_trailing_slash_empty conj_commute cong: conj_cong)

text \<open>
  Claim C7 as stated fails on the text \<open>/\<close>: the line is neither empty after trimming
  nor a comment, so the stated rules keep it as a directory node with the empty
  token, while the parser returns no node.
\<close>

theorem parser_slash_line_counterexample:
  "parseStructureDefinition (js ''/'') = []
   \<and> spec_parse (js ''/'') =
       [\<lparr>dsi_path = [], dsi_type = Directory, dsi_depth = 0, dsi_name = []\<rparr>]"
  by (simp add: parseStructureDefinition_def spec_parse_def spec_node_def spec_discarded_def
      parse_line_def js_def trim_def trimStart_def trimEnd_def isWhiteSpace_def
      startsWith_def endsWith_def replace_trailing_slash_def)

text \<open>
  Claim C10. In every node the parser produces, the name equals the path, and both
  are the trimmed token of a line of the text with its trailing \<open>/\<close> stripped.
\<close>

theorem parsed_name_is_path:
  "n \<in> set (parseStructureDefinition text) \<Longrightarrow>
     dsi_name n = dsi_path n
     \<and> (\<exists>line \<in> set (split 0x0A text). dsi_path n = replace_trailing_slash (trim line))"
  by (auto simp: parseStructureDefinition_def foldl_parse_line spec_node_def)

theorem parsed_name_is_path_witness:
  "\<lparr>dsi_path = js ''docs'', dsi_type = Directory, dsi_depth = 0, dsi_name = js ''docs''\<rparr>
      \<in> set (parseStructureDefinition (js ''docs/\<newline>  report.pdf''))
   \<and> dsi_name \<lparr>dsi_path = js ''docs'', dsi_type = Directory, dsi_depth = 0, dsi_name = js ''docs''\<rparr>
     = dsi_path \<lparr>dsi_path = js ''docs'', dsi_type = Directory, dsi_depth = 0, dsi_name = js ''docs''\<rparr>"
proof -
  have h: "\<lparr>dsi_path = js ''docs'', dsi_type = Directory, dsi_depth = 0, dsi_name = js ''docs''\<rparr>
      \<in> set (parseStructureDefinition (js ''docs/\<newline>  report.pdf''))"
    by (simp add: parseStructureDefinition_def parse_line_def Let_def
      js_def trim_def trimStart_def trimEnd_def isWhiteSpace_def
      startsWith_def endsWith_def replace_trailing_slash_def)
  from parsed_name_is_path [OF h] h show ?thesis by blast
qed

text \<open>
  Claim C6 (scenario A). The definition \<open>docs/\<close>, line feed, \<open>  report.pdf\<close> parses
  to the directory node \<open>docs\<close> at depth 0 followed by the file node \<open>report.pdf\<close>
  at depth 1, and building the skeleton from it creates exactly one slot, for
  \<open>report.pdf\<close>.
\<close>

theorem scenario_A:
  "parseStructureDefinition (js ''docs/\<newline>  report.pdf'') =
     [\<lparr>dsi_path = js ''docs'', dsi_type = Directory, dsi_depth = 0, dsi_name = js ''docs''\<rparr>,
      \<lparr>dsi_path = js ''report.pdf'', dsi_type = File, dsi_depth = 1, dsi_name = js ''report.pdf''\<rparr>]
   \<and> buildTargetStructure (js ''docs/\<newline>  report.pdf'') =
     Some [\<lparr>ts_id = js ''slot_1'', ts_path = js ''report.pdf'', ts_type = File,
            ts_assignedFile = None, ts_status = Empty, ts_confidence = None\<rparr>]"
  by (simp add: parseStructureDefinition_def buildTargetStructure_def nonblank_lines_def
      parse_line_def build_line_def enumerate_eq_zip toString_nat.simps Let_def
      js_def trim_def trimStart_def trimEnd_def isWhiteSpace_def
      startsWith_def endsWith_def replace_trailing_slash_def)


section \<open>The skeleton builder\<close>

lemma build_line_token:
  "build_line slots (i, l) =
     (if is_file_token (trim l) then slots @ [slot_of i (trim l)] else slots)"
  by (simp add: build_line_def is_file_token_def slot_of_def Let_def replace_trailing_slash_def)

lemma foldl_build_line:
  "foldl build_line acc (enumerate k ls) =
     acc @ map (\<lambda>(i, t). slot_of i t)
             (filter (\<lambda>(i, t). is_file_token t) (enumerate k (map trim ls)))"
  by (induction ls arbitrary: acc k) (simp_all add: build_line_token)

lemma nonblank_lines_nonempty: "nonblank_lines d \<noteq> [] \<longleftrightarrow> trim d \<noteq> []"
proof
  assume "nonblank_lines d \<noteq> []"
  then obtain l where "l \<in> set (split 0x0A d)" "trim l \<noteq> []"
    by (auto simp: nonblank_lines_def filter_empty_conv)
  then show "trim d \<noteq> []"
    using set_split_subset [of l "0x0A" d] by (auto simp: trim_empty_iff)
next
  assume "trim d \<noteq> []"
  then obtain c where c: "c \<in> set d" "\<not> isWhiteSpace c"
    by (auto simp: trim_empty_iff)
  then have "c \<noteq> 0x0A" using newline_white by auto
  with c obtain l where "l \<in> set (split 0x0A d)" "c \<in> set l"
    using set_split_cover by metis
  with c show "nonblank_lines d \<noteq> []"
    by (auto simp: nonblank_lines_def filter_empty_conv trim_empty_iff)
qed

text \<open>
  Claim C3, as the code has it. A blank definition is refused. Otherwise the slots
  are the file lines of the definition, in order, and the slot of a file line has
  the id \<open>slot_\<close> followed by the decimal index of that very line among the lines
  that are not blank (a position, not a hash of the path) and the trimmed line as its
  path. So rebuilding from a definition whose file lines have the same text at the
  same positions yields the same slots, with identical ids for identical paths.
\<close>

theorem slot_ids_positional:
  "buildTargetStructure d =
     (if trim d = [] then None
      else Some (map (\<lambda>(i, t). \<lparr>ts_id = js ''slot_'' @ toString_nat i, ts_path = t,
                                  ts_type = File, ts_assignedFile = None,
                                  ts_status = Empty, ts_confidence = None\<rparr>)
                   (file_lines d)))
   \<and> (trim d \<noteq> [] \<longrightarrow> trim d' \<noteq> [] \<longrightarrow> file_lines d' = file_lines d
        \<longrightarrow> buildTargetStructure d' = buildTargetStructure d)"
proof -
  have exact: "buildTargetStructure x =
     (if trim x = [] then None
      else Some (map (\<lambda>(i, t). \<lparr>ts_id = js ''slot_'' @ toString_nat i, ts_path = t,
                                  ts_type = File, ts_assignedFile = None,
                                  ts_status = Empty, ts_confidence = None\<rparr>)
                   (file_lines x)))" for x
    by (simp add: buildTargetStructure_def foldl_build_line file_lines_def slot_of_def)
  have "buildTargetStructure d' = buildTargetStructure d"
    if "trim d \<noteq> []" "trim d' \<noteq> []" "file_lines d' = file_lines d"
    using that by (simp add: exact)
  with exact [of d] show ?thesis by blast
qed

text \<open>
  Claim C3 as stated fails: the definitions \<open>a.txt\<close> and \<open>docs/\<close>, line feed,
  \<open>a.txt\<close> have the same file paths, and the slot for \<open>a.txt\<close> has the id
  \<open>slot_0\<close> in the first and \<open>slot_1\<close> in the second.
\<close>

theorem slot_ids_counterexample:
  "buildTargetStructure (js ''a.txt'') =
     Some [\<lparr>ts_id = js ''slot_0'', ts_path = js ''a.txt'', ts_type = File,
            ts_assignedFile = None, ts_status = Empty, ts_confidence = None\<rparr>]
   \<and> buildTargetStructure (js ''docs/\<newline>a.txt'') =
     Some [\<lparr>ts_id = js ''slot_1'', ts_path = js ''a.txt'', ts_type = File,
            ts_assignedFile = None, ts_status = Empty, ts_confidence = None\<rparr>]
   \<and> js ''slot_0'' \<noteq> js ''slot_1''"
  by (simp add: buildTargetStructure_def nonblank_lines_def
      build_line_def enumerate_eq_zip toString_nat.simps Let_def
      js_def trim_def trimStart_def trimEnd_def isWhiteSpace_def
      startsWith_def endsWith_def replace_trailing_slash_def)

text \<open>
  The two definitions of the witness for claim C3 differ in their first line (a
  directory line, a comment), in a blank line and in the whitespace around the file
  line; in both, \<open>report.pdf\<close> is the file line at index 1.
\<close>

theorem slot_ids_positional_witness:
  "trim (js ''docs/\<newline>  report.pdf'') \<noteq> []
   \<and> trim (js ''# layout\<newline>\<newline>report.pdf  '') \<noteq> []
   \<and> file_lines (js ''# layout\<newline>\<newline>report.pdf  '') = [(1, js ''report.pdf'')]
   \<and> file_lines (js ''docs/\<newline>  report.pdf'') = [(1, js ''report.pdf'')]
   \<and> buildTargetStructure (js ''# layout\<newline>\<newline>report.pdf  '')
       = buildTargetStructure (js ''docs/\<newline>  report.pdf'')
   \<and> buildTargetStructure (js ''docs/\<newline>  report.pdf'') =
     Some [\<lparr>ts_id = js ''slot_1'', ts_path = js ''report.pdf'', ts_type = File,
            ts_assignedFile = None, ts_status = Empty, ts_confidence = None\<rparr>]"
proof -
  have t1: "trim (js ''docs/\<newline>  report.pdf'') \<noteq> []"
    by (simp add: js_def trim_def trimStart_def trimEnd_def isWhiteSpace_def)
  have t2: "trim (js ''# layout\<newline>\<newline>report.pdf  '') \<noteq> []"
    by (simp add: js_def trim_def trimStart_def trimEnd_def isWhiteSpace_def)
  have f1: "file_lines (js ''docs/\<newline>  report.pdf'') = [(1, js ''report.pdf'')]"
    by (simp add: file_lines_def is_file_token_def nonblank_lines_def enumerate_eq_zip
        js_def trim_def trimStart_def trimEnd_def isWhiteSpace_def startsWith_def endsWith_def)
  have f2: "file_lines (js ''# layout\<newline>\<newline>report.pdf  '') = [(1, js ''report.pdf'')]"
    by (simp add: file_lines_def is_file_token_def nonblank_lines_def enumerate_eq_zip
        js_def trim_def trimStart_def trimEnd_def isWhiteSpace_def startsWith_def endsWith_def)
  note inst = slot_ids_positional [of "js ''docs/\<newline>  report.pdf''"
      "js ''# layout\<newline>\<newline>report.pdf  ''"]
  from inst t1 t2 f1 f2
  have same: "buildTargetStructure (js ''# layout\<newline>\<newline>report.pdf  '')
       = buildTargetStructure (js ''docs/\<newline>  report.pdf'')"
    by simp
  from inst t1 f1
  have val: "buildTargetStructure (js ''docs/\<newline>  report.pdf'') =
     Some [\<lparr>ts_id = js ''slot_1'', ts_path = js ''report.pdf'', ts_type = File,
            ts_assignedFile = None, ts_status = Empty, ts_confidence = None\<rparr>]"
    by (simp add: toString_nat.simps js_def)
  from t1 t2 f1 f2 same val show ?thesis by blast
qed


section \<open>The batch executor\<close>

lemma process_items_no_fault:
  "never_throws cb \<Longrightarrow> \<forall>x \<in> set xs. x \<noteq> Nullish \<Longrightarrow>
     fst (process_items cb len i xs calls) = None
     \<and> length (snd (process_items cb len i xs calls))
         = length calls + (if cb = None then 0 else length xs)"
proof (induction xs arbitrary: i calls)
  case Nil
  then show ?case by simp
next
  case (Cons x xs)
  from Cons.prems obtain n p r where x: "x = Obj n p r" by (cases x) auto
  show ?case
  proof (cases cb)
    case None
    with Cons x show ?thesis by (simp add: Let_def)
  next
    case (Some f)
    with Cons.prems have nt: "\<And>p m. f p m = None" by (simp add: never_throws_def)
    from Cons.IH [OF Cons.prems(1)] Cons.prems(2) x Some nt show ?thesis
      by (simp add: Let_def)
  qed
qed

lemma process_items_stops:
  "never_throws cb \<Longrightarrow> \<forall>x \<in> set pre. x \<noteq> Nullish \<Longrightarrow>
     process_items cb len i (pre @ Nullish # post) calls
       = (Some TypeError, snd (process_items cb len i pre calls))"
proof (induction pre arbitrary: i calls)
  case Nil
  then show ?case by simp
next
  case (Cons x xs)
  from Cons.prems obtain n p r where x: "x = Obj n p r" by (cases x) auto
  show ?case
  proof (cases cb)
    case None
    with Cons x show ?thesis by (simp add: Let_def)
  next
    case (Some f)
    with Cons.prems have nt: "\<And>p m. f p m = None" by (simp add: never_throws_def)
    from Cons.IH [OF Cons.prems(1)] Cons.prems(2) x Some nt show ?thesis
      by (simp add: Let_def)
  qed
qed

lemma simulate_no_fault:
  assumes nt: "never_throws cb" and all: "\<forall>x \<in> set items. x \<noteq> Nullish"
  shows "oc_result (simulateFileOperation t items cb) = Success (length items)"
    and "length (oc_calls (simulateFileOperation t items cb))
           = (if cb = None then 0 else length items)"
proof -
  obtain r calls where pc: "process_items cb (length items) 0 items [] = (r, calls)"
    by (cases "process_items cb (length items) 0 items []")
  with process_items_no_fault [OF nt all, of "length items" 0 "[]"]
  have "r = None" and "length calls = (if cb = None then 0 else length items)"
    by simp_all
  with pc show "oc_result (simulateFileOperation t items cb) = Success (length items)"
    and "length (oc_calls (simulateFileOperation t items cb))
           = (if cb = None then 0 else length items)"
    by (simp_all add: simulateFileOperation_def)
qed

lemma simulate_fault:
  assumes nt: "never_throws cb" and pre: "\<forall>x \<in> set pre. x \<noteq> Nullish"
  shows "oc_result (simulateFileOperation t (pre @ Nullish # post) cb) = Failure TypeError"
    and "length (oc_calls (simulateFileOperation t (pre @ Nullish # post) cb))
           = (if cb = None then 0 else length pre)"
proof -
  let ?n = "length (pre @ Nullish # post)"
  obtain r calls where pc: "process_items cb ?n 0 pre [] = (r, calls)"
    by (cases "process_items cb ?n 0 pre []")
  with process_items_no_fault [OF nt pre, of ?n 0 "[]"]
  have len: "length calls = (if cb = None then 0 else length pre)"
    by simp
  from process_items_stops [OF nt pre, of ?n 0 post "[]"] pc
  have "process_items cb ?n 0 (pre @ Nullish # post) [] = (Some TypeError, calls)"
    by simp
  with len show "oc_result (simulateFileOperation t (pre @ Nullish # post) cb) = Failure TypeError"
    and "length (oc_calls (simulateFileOperation t (pre @ Nullish # post) cb))
           = (if cb = None then 0 else length pre)"
    by (simp_all add: simulateFileOperation_def)
qed

lemma split_at_first_nullish:
  assumes "Nullish \<in> set items"
  shows "\<exists>post. items = takeWhile (\<lambda>x. x \<noteq> Nullish) items @ Nullish # post"
proof -
  from assms have ne: "dropWhile (\<lambda>x. x \<noteq> Nullish) items \<noteq> []"
    by (auto simp: dropWhile_eq_Nil_conv)
  then have "hd (dropWhile (\<lambda>x. x \<noteq> Nullish) items) = Nullish"
    using hd_dropWhile [of "\<lambda>x. x \<noteq> Nullish" items] by simp
  with ne have "dropWhile (\<lambda>x. x \<noteq> Nullish) items
                  = Nullish # tl (dropWhile (\<lambda>x. x \<noteq> Nullish) items)"
    by (metis list.collapse)
  then show ?thesis by (metis takeWhile_dropWhile_id)
qed

text \<open>
  Claim C8, as the code has it. The executor never reads the source of an item and
  has one \<open>try\<close> block around the whole loop. With a callback that does not throw:
  a batch without a null item returns \<open>{success: true, processedCount: N}\<close>,
  whatever the items' sources are; a batch with a null item returns
  \<open>{success: false, error}\<close> with the \<open>TypeError\<close>, and the callback has been called
  for the items before the first null item only, so processing stops there. The
  function always returns a result: no exception reaches the caller.
\<close>

theorem batch_stops_at_first_fault:
  "never_throws cb \<Longrightarrow>
     oc_result (simulateFileOperation t items cb)
       = (if Nullish \<in> set items then Failure TypeError else Success (length items))
     \<and> length (oc_calls (simulateFileOperation t items cb))
       = (if cb = None then 0 else length (takeWhile (\<lambda>x. x \<noteq> Nullish) items))"
proof (cases "Nullish \<in> set items")
  case False
  assume nt: "never_throws cb"
  from False have all: "\<forall>x \<in> set items. x \<noteq> Nullish" by auto
  then have tw: "takeWhile (\<lambda>x. x \<noteq> Nullish) items = items" by (simp add: takeWhile_eq_all_conv)
  from simulate_no_fault [OF nt all, of t] False show ?thesis by (simp add: tw)
next
  case True
  assume nt: "never_throws cb"
  from split_at_first_nullish [OF True] obtain post
    where items: "items = takeWhile (\<lambda>x. x \<noteq> Nullish) items @ Nullish # post" by blast
  have pre: "\<forall>x \<in> set (takeWhile (\<lambda>x. x \<noteq> Nullish) items). x \<noteq> Nullish"
    by (auto dest: set_takeWhileD)
  from simulate_fault [OF nt pre, of t post] items True show ?thesis by simp
qed

theorem batch_stops_at_first_fault_witness:
  "never_throws (Some display_progress)
   \<and> oc_result (simulateFileOperation (js ''move_files'')
        [Obj (Some (js ''a.txt'')) None True, Nullish, Obj (Some (js ''c.txt'')) None True]
        (Some display_progress)) = Failure TypeError
   \<and> length (oc_calls (simulateFileOperation (js ''move_files'')
        [Obj (Some (js ''a.txt'')) None True, Nullish, Obj (Some (js ''c.txt'')) None True]
        (Some display_progress))) = 1"
proof -
  have h: "never_throws (Some display_progress)"
    by (simp add: never_throws_def display_progress_def)
  from batch_stops_at_first_fault [OF h, of "js ''move_files''"
      "[Obj (Some (js ''a.txt'')) None True, Nullish, Obj (Some (js ''c.txt'')) None True]"] h
  show ?thesis by simp
qed

text \<open>
  Claim C8 as stated fails. A batch of three items of which the second has an
  unreadable source (the payload \<open>False\<close>) is reported as three processed items,
  with no failure. A batch of three whose second item cannot be processed (it is
  null) does not continue with the third item: the result is the error alone,
  without lists of succeeded and failed items.
\<close>

theorem batch_result_counterexample:
  "simulateFileOperation (js ''move_files'')
     [Obj (Some (js ''a.txt'')) None True, Obj (Some (js ''b.txt'')) None False,
      Obj (Some (js ''c.txt'')) None True]
     (Some display_progress)
   = \<lparr>oc_result = Success 3,
      oc_calls = [\<lparr>pe_progress = 100 / 3, pe_message = js ''Processing 1/3: a.txt''\<rparr>,
                  \<lparr>pe_progress = 200 / 3, pe_message = js ''Processing 2/3: b.txt''\<rparr>,
                  \<lparr>pe_progress = 100, pe_message = js ''Processing 3/3: c.txt''\<rparr>],
      oc_status = OpSuccess\<rparr>
   \<and> simulateFileOperation (js ''move_files'')
     [Obj (Some (js ''a.txt'')) None True, Nullish, Obj (Some (js ''c.txt'')) None True]
     (Some display_progress)
   = \<lparr>oc_result = Failure TypeError,
      oc_calls = [\<lparr>pe_progress = 100 / 3, pe_message = js ''Processing 1/3: a.txt''\<rparr>],
      oc_status = OpError\<rparr>"
  by (simp add: simulateFileOperation_def display_progress_def Let_def js_def toString_nat.simps)


section \<open>The archiver\<close>

text \<open>
  Claim C9, as the code has it. When processing the plan succeeds, the package
  operation hands out one file for download, named after the package with the
  extension \<open>.zip\<close>; its content is a fixed placeholder text that does not depend
  on the plan's items or paths.
\<close>

theorem package_is_placeholder:
  "never_throws cb \<Longrightarrow>
     oc_result (fst (createPackage plan packageName cb)) = Success (length plan)
     \<and> snd (createPackage plan packageName cb)
         = Some \<lparr>dl_filename = packageName @ js ''.zip'',
                 dl_mime = js ''application/zip'',
                 dl_content = js ''# Package Contents\<newline>\<newline>This is a simulated package file.''\<rparr>"
proof -
  assume nt: "never_throws cb"
  have "\<forall>x \<in> set (map assignment_item plan). x \<noteq> Nullish"
    by (auto simp: assignment_item_def)
  from simulate_no_fault(1) [OF nt this, of "js ''create_package''"]
  show ?thesis by (simp add: createPackage_def package_blob_def)
qed

theorem package_is_placeholder_witness:
  "never_throws None
   \<and> snd (createPackage [\<lparr>asg_source = (0::nat), asg_target = js ''docs/report.pdf''\<rparr>]
            (js ''pkg'') None)
       = Some \<lparr>dl_filename = js ''pkg.zip'',
               dl_mime = js ''application/zip'',
               dl_content = js ''# Package Contents\<newline>\<newline>This is a simulated package file.''\<rparr>"
proof -
  have h: "never_throws None" by (simp add: never_throws_def)
  from package_is_placeholder [OF h, of "[\<lparr>asg_source = (0::nat), asg_target = js ''docs/report.pdf''\<rparr>]" "js ''pkg''"] h
  show ?thesis by (simp add: js_def)
qed

text \<open>
  Claim C9 as stated fails: two different non-empty plans give the same download,
  and the target path of the planned item does not occur in its content.
\<close>

theorem package_content_counterexample:
  "snd (createPackage [\<lparr>asg_source = (0::nat), asg_target = js ''docs/report.pdf''\<rparr>]
          (js ''pkg'') None)
     = Some \<lparr>dl_filename = js ''pkg.zip'',
             dl_mime = js ''application/zip'',
             dl_content = js ''# Package Contents\<newline>\<newline>This is a simulated package file.''\<rparr>
   \<and> snd (createPackage [\<lparr>asg_source = (1::nat), asg_target = js ''img/logo.png''\<rparr>,
                          \<lparr>asg_source = (2::nat), asg_target = js ''notes.txt''\<rparr>]
          (js ''pkg'') None)
     = Some \<lparr>dl_filename = js ''pkg.zip'',
             dl_mime = js ''application/zip'',
             dl_content = js ''# Package Contents\<newline>\<newline>This is a simulated package file.''\<rparr>
   \<and> \<not> includes_sub (js ''# Package Contents\<newline>\<newline>This is a simulated package file.'')
          (js ''docs/report.pdf'')"
  by (simp add: createPackage_def simulateFileOperation_def assignment_item_def package_blob_def
      Let_def js_def toString_nat.simps startsWith_def)


section \<open>The auto-match pass\<close>

lemma nth_list_update_any:
  "(xs[i := x]) ! j = (if i = j \<and> i < length xs then x else xs ! j)"
  by (cases "i < length xs") (auto simp: nth_list_update list_update_beyond)

lemma foldl_preserves:
  assumes "P st" and "\<And>st i. P st \<Longrightarrow> i \<in> set idxs \<Longrightarrow> P (f st i)"
  shows "P (foldl f st idxs)"
  using assms by (induction idxs arbitrary: st) auto

lemma find_SomeD: "find P xs = Some a \<Longrightarrow> a \<in> set xs \<and> P a"
  by (auto simp: find_Some_iff)

lemma assign_step_cases:
  obtains (skip) "assign_step lc rnd files st i = st"
  | (hit) a where "ts_status (as_slots st ! i) = Empty"
      and "a \<in> set files"
      and "matches lc (as_heap st) (lc (last (split 0x2E (ts_path (as_slots st ! i))))) a"
      and "assign_step lc rnd files st i =
        \<lparr>as_slots = (as_slots st)
           [i := (as_slots st ! i)\<lparr>ts_assignedFile := Some a, ts_status := AutoMatched,
                                  ts_confidence := Some (75 + rnd (as_count st) * 20)\<rparr>],
         as_heap = (as_heap st)
           [a := (as_heap st ! a)\<lparr>sf_status := Assigned,
                                  sf_targetPath := Some (ts_path (as_slots st ! i))\<rparr>],
         as_count = as_count st + 1\<rparr>"
proof (cases "ts_status (as_slots st ! i) = Empty")
  case False
  then have "assign_step lc rnd files st i = st" by (simp add: assign_step_def Let_def)
  then show ?thesis by (rule skip)
next
  case True
  show ?thesis
  proof (cases "find (matches lc (as_heap st) (lc (last (split 0x2E (ts_path (as_slots st ! i)))))) files")
    case None
    with True have "assign_step lc rnd files st i = st" by (simp add: assign_step_def Let_def)
    then show ?thesis by (rule skip)
  next
    case (Some a)
    from find_SomeD [OF Some] True Some show ?thesis
      by (intro hit [of a]) (simp_all add: assign_step_def Let_def)
  qed
qed
lemma matched_from_mono:
  assumes "matched_from lc rnd files h0 b old new" and "b \<le> b'"
  shows "matched_from lc rnd files h0 b' old new"
proof -
  from assms(1) obtain a k where e: "ts_status old = Empty"
    "new = old\<lparr>ts_assignedFile := Some a, ts_status := AutoMatched,
                 ts_confidence := Some (75 + rnd k * 20)\<rparr>"
    "k < b" "a \<in> set files" "sf_status (h0 ! a) = Staged"
    "includes_sub (lc (sf_name (h0 ! a))) (lc (last (split 0x2E (ts_path old))))"
    unfolding matched_from_def by blast
  from e(3) assms(2) have "k < b'" by simp
  with e show ?thesis unfolding matched_from_def by blast
qed

lemma matched_from_status: "matched_from lc rnd files h0 b old new \<Longrightarrow> ts_status new = AutoMatched"
  unfolding matched_from_def by auto

lemma pass_inv_step:
  assumes inv: "pass_inv lc rnd files h0 slots0 st" and i: "i < length slots0"
  shows "pass_inv lc rnd files h0 slots0 (assign_step lc rnd files st i)"
proof (cases rule: assign_step_cases [of lc rnd files st i])
  case skip
  with inv show ?thesis by simp
next
  case (hit a)
  define old where "old = as_slots st ! i"
  define new where "new = old\<lparr>ts_assignedFile := Some a, ts_status := AutoMatched,
                     ts_confidence := Some (75 + rnd (as_count st) * 20)\<rparr>"
  define f where "f = (as_heap st ! a)\<lparr>sf_status := Assigned, sf_targetPath := Some (ts_path old)\<rparr>"
  define st' where "st' = assign_step lc rnd files st i"
  from hit(4) have sl': "as_slots st' = (as_slots st)[i := new]"
    and hp': "as_heap st' = (as_heap st)[a := f]"
    and ct': "as_count st' = as_count st + 1"
    by (simp_all add: st'_def new_def old_def f_def)
  note inv' = inv [unfolded pass_inv_def]
  from inv' have len: "length (as_slots st) = length slots0" "length (as_heap st) = length h0"
    by blast+
  from inv' have nm: "sf_name (as_heap st ! b) = sf_name (h0 ! b)" for b
    by blast
  from inv' have stg: "sf_status (as_heap st ! b) = Staged \<Longrightarrow> sf_status (h0 ! b) = Staged" for b
    by blast
  from inv' have frame: "sf_status (h0 ! b) \<noteq> Staged \<Longrightarrow> as_heap st ! b = h0 ! b" for b
    by blast
  from inv' have sl: "j < length slots0 \<Longrightarrow> as_slots st ! j = slots0 ! j
          \<or> matched_from lc rnd files h0 (as_count st) (slots0 ! j) (as_slots st ! j)" for j
    by blast
  from hit(3) have a_st: "sf_status (as_heap st ! a) = Staged"
    and a_inc: "includes_sub (lc (sf_name (as_heap st ! a))) (lc (last (split 0x2E (ts_path old))))"
    by (simp_all add: matches_def old_def)
  have a0: "sf_status (h0 ! a) = Staged" using a_st by (rule stg)
  from sl [OF i] hit(1) have old0: "old = slots0 ! i"
    unfolding old_def by (auto dest: matched_from_status)
  have n1: "ts_status (slots0 ! i) = Empty" using hit(1) old0 by (simp add: old_def)
  have n2: "new = (slots0 ! i)\<lparr>ts_assignedFile := Some a, ts_status := AutoMatched,
                     ts_confidence := Some (75 + rnd (as_count st) * 20)\<rparr>"
    by (simp add: new_def old0)
  have n3: "as_count st < as_count st + 1" by simp
  have n4: "includes_sub (lc (sf_name (h0 ! a))) (lc (last (split 0x2E (ts_path (slots0 ! i)))))"
    using a_inc by (simp add: nm old0)
  have new_ok: "matched_from lc rnd files h0 (as_count st + 1) (slots0 ! i) new"
    unfolding matched_from_def using n1 n2 n3 n4 hit(2) a0 by blast
  have c1: "length (as_slots st') = length slots0" by (simp add: sl' len)
  have c2: "length (as_heap st') = length h0" by (simp add: hp' len)
  have fn: "sf_name f = sf_name (as_heap st ! a)" by (simp add: f_def)
  have c3: "sf_name (as_heap st' ! b) = sf_name (h0 ! b)" for b
    using nm [of b] nm [of a] fn by (simp add: hp' nth_list_update_any)
  have fs: "sf_status f = Assigned" by (simp add: f_def)
  have c4: "sf_status (as_heap st' ! b) = Staged \<Longrightarrow> sf_status (h0 ! b) = Staged" for b
    using stg [of b] fs by (simp add: hp' nth_list_update_any split: if_splits)
  have c5: "as_heap st' ! b = h0 ! b" if "sf_status (h0 ! b) \<noteq> Staged" for b
  proof -
    from that a0 have "a \<noteq> b" by auto
    then show ?thesis using frame [OF that] by (simp add: hp')
  qed
  have c6: "as_slots st' ! j = slots0 ! j
          \<or> matched_from lc rnd files h0 (as_count st') (slots0 ! j) (as_slots st' ! j)"
    if j: "j < length slots0" for j
  proof (cases "j = i")
    case True
    with new_ok i len show ?thesis by (simp add: sl' ct')
  next
    case False
    from sl [OF j] show ?thesis
    proof
      assume "as_slots st ! j = slots0 ! j"
      with False show ?thesis by (simp add: sl')
    next
      assume "matched_from lc rnd files h0 (as_count st) (slots0 ! j) (as_slots st ! j)"
      then have "matched_from lc rnd files h0 (as_count st') (slots0 ! j) (as_slots st ! j)"
        by (rule matched_from_mono) (simp add: ct')
      with False show ?thesis by (simp add: sl')
    qed
  qed
  from c1 c2 c3 c4 c5 c6 show ?thesis
    unfolding st'_def [symmetric] pass_inv_def by blast
qed

lemma pass_inv_loop:
  "pass_inv lc rnd files (heap s) (targetSlots s)
     (foldl (assign_step lc rnd files)
        \<lparr>as_slots = targetSlots s, as_heap = heap s, as_count = 0\<rparr>
        [0..<length (targetSlots s)])"
proof (rule foldl_preserves)
  show "pass_inv lc rnd files (heap s) (targetSlots s)
          \<lparr>as_slots = targetSlots s, as_heap = heap s, as_count = 0\<rparr>"
    by (simp add: pass_inv_def)
next
  fix st i
  assume "pass_inv lc rnd files (heap s) (targetSlots s) st" "i \<in> set [0..<length (targetSlots s)]"
  then show "pass_inv lc rnd files (heap s) (targetSlots s) (assign_step lc rnd files st i)"
    by (simp add: pass_inv_step)
qed

lemma pass_result:
  assumes "stagedFiles s \<noteq> []" "targetSlots s \<noteq> []"
  shows "\<exists>st. pass_inv lc rnd (stagedFiles s) (heap s) (targetSlots s) st
           \<and> targetSlots (autoAssignFiles lc rnd s) = as_slots st
           \<and> heap (autoAssignFiles lc rnd s) = as_heap st"
  using assms pass_inv_loop [of lc rnd "stagedFiles s" s]
  by (auto simp: autoAssignFiles_def Let_def)

lemma assign_step_count:
  "as_count (assign_step lc rnd files st i) \<le> as_count st + 1"
  by (cases rule: assign_step_cases [of lc rnd files st i]) simp_all

lemma foldl_assign_count:
  "as_count (foldl (assign_step lc rnd files) st idxs) \<le> as_count st + length idxs"
proof (induction idxs arbitrary: st)
  case Nil
  then show ?case by simp
next
  case (Cons i idxs)
  from Cons.IH [of "assign_step lc rnd files st i"] assign_step_count [of lc rnd files st i]
  show ?case by simp
qed

lemma pass_count:
  assumes "stagedFiles s \<noteq> []" "targetSlots s \<noteq> []"
  shows "\<exists>st. pass_inv lc rnd (stagedFiles s) (heap s) (targetSlots s) st
           \<and> as_count st \<le> length (targetSlots s)
           \<and> targetSlots (autoAssignFiles lc rnd s) = as_slots st
           \<and> heap (autoAssignFiles lc rnd s) = as_heap st"
  using assms pass_inv_loop [of lc rnd "stagedFiles s" s]
    foldl_assign_count [of lc rnd "stagedFiles s"
      "\<lparr>as_slots = targetSlots s, as_heap = heap s, as_count = 0\<rparr>" "[0..<length (targetSlots s)]"]
  by (auto simp: autoAssignFiles_def Let_def)

lemma proposal_update:
  "proposal (x\<lparr>ts_assignedFile := u, ts_status := v, ts_confidence := w\<rparr>)
     = (proposal x)\<lparr>ts_assignedFile := u, ts_status := v\<rparr>"
  by (simp add: proposal_def)

lemma proposal_fields:
  "proposal x = proposal y \<Longrightarrow> ts_status x = ts_status y \<and> ts_path x = ts_path y"
proof -
  assume e: "proposal x = proposal y"
  have "ts_status x = ts_status (proposal x)" "ts_path x = ts_path (proposal x)"
    by (simp_all add: proposal_def)
  moreover have "ts_status y = ts_status (proposal y)" "ts_path y = ts_path (proposal y)"
    by (simp_all add: proposal_def)
  ultimately show ?thesis using e by simp
qed

lemma same_proposals_step:
  assumes rel: "same_proposals st1 st2" and i: "i < length (as_slots st1)"
  shows "same_proposals (assign_step lc r1 files st1 i) (assign_step lc r2 files st2 i)"
proof -
  from rel have hp: "as_heap st1 = as_heap st2" and ct: "as_count st1 = as_count st2"
    and mp: "map proposal (as_slots st1) = map proposal (as_slots st2)"
    by (simp_all add: same_proposals_def)
  from mp have len: "length (as_slots st1) = length (as_slots st2)"
    by (rule map_eq_imp_length_eq)
  from mp i len have pi: "proposal (as_slots st1 ! i) = proposal (as_slots st2 ! i)"
    by (metis nth_map)
  note f = proposal_fields [OF pi]
  show ?thesis
  proof (cases "ts_status (as_slots st1 ! i) = Empty")
    case False
    with f rel show ?thesis by (simp add: assign_step_def Let_def)
  next
    case True
    show ?thesis
    proof (cases "find (matches lc (as_heap st1) (lc (last (split 0x2E (ts_path (as_slots st1 ! i)))))) files")
      case None
      with True f hp rel show ?thesis by (simp add: assign_step_def Let_def)
    next
      case (Some a)
      with True f hp ct mp pi show ?thesis
        by (simp add: assign_step_def Let_def same_proposals_def map_update proposal_update)
    qed
  qed
qed

lemma assign_step_length:
  "length (as_slots (assign_step lc rnd files st i)) = length (as_slots st)"
  by (cases rule: assign_step_cases [of lc rnd files st i]) simp_all

lemma same_proposals_loop:
  "same_proposals st1 st2 \<Longrightarrow> \<forall>i \<in> set idxs. i < length (as_slots st1) \<Longrightarrow>
     same_proposals (foldl (assign_step lc r1 files) st1 idxs)
                    (foldl (assign_step lc r2 files) st2 idxs)"
proof (induction idxs arbitrary: st1 st2)
  case Nil
  then show ?case by simp
next
  case (Cons i idxs)
  from Cons.prems have "same_proposals (assign_step lc r1 files st1 i) (assign_step lc r2 files st2 i)"
    by (simp add: same_proposals_step)
  moreover from Cons.prems
  have "\<forall>j \<in> set idxs. j < length (as_slots (assign_step lc r1 files st1 i))"
    by (simp add: assign_step_length)
  ultimately show ?case using Cons.IH by simp
qed

lemma assign_step_same_draw:
  "r1 (as_count st) = r2 (as_count st) \<Longrightarrow>
     assign_step lc r1 files st i = assign_step lc r2 files st i"
  by (simp add: assign_step_def Let_def split: option.splits)

lemma same_draws_loop:
  "\<forall>k < as_count st + length idxs. r1 k = r2 k \<Longrightarrow>
     foldl (assign_step lc r1 files) st idxs = foldl (assign_step lc r2 files) st idxs"
proof (induction idxs arbitrary: st)
  case Nil
  then show ?case by simp
next
  case (Cons i idxs)
  from Cons.prems have "r1 (as_count st) = r2 (as_count st)" by simp
  then have e: "assign_step lc r1 files st i = assign_step lc r2 files st i"
    by (rule assign_step_same_draw)
  from assign_step_count [of lc r2 files st i] Cons.prems
  have "\<forall>k < as_count (assign_step lc r2 files st i) + length idxs. r1 k = r2 k"
    by simp
  from Cons.IH [OF this] e show ?case by simp
qed

lemmas eval_defs =
  autoAssignFiles_def assign_step_def matches_def Let_def draws_def
  ascii_toLowerCase_def js_def startsWith_def slot_of_def toString_nat.simps

lemma scenario_B_pass:
  "autoAssignFiles ascii_toLowerCase (draws [r]) scenario_B =
     \<lparr>heap = [\<lparr>sf_id = js ''1'', sf_name = js ''invoice_final.pdf'',
               sf_path = js ''/files/invoice_final.pdf'', sf_size = 1000,
               sf_type = js ''application/pdf'', sf_status = Assigned,
               sf_targetPath = Some (js ''invoice.pdf'')\<rparr>],
      stagedFiles = [0],
      targetStructure = js ''invoice.pdf'',
      targetSlots = [\<lparr>ts_id = js ''slot_0'', ts_path = js ''invoice.pdf'', ts_type = File,
                      ts_assignedFile = Some 0, ts_status = AutoMatched,
                      ts_confidence = Some (75 + r * 20)\<rparr>]\<rparr>"
  by (simp add: scenario_B_def eval_defs)

lemma example_run: "run ascii_toLowerCase example_events = example_store"
  by (simp add: run_def example_events_def example_store_def initial_store_def
      addFilesToStage_def buildTargetStructure_op_def buildTargetStructure_def nonblank_lines_def
      build_line_def enumerate_eq_zip trim_def trimStart_def trimEnd_def isWhiteSpace_def
      endsWith_def replace_trailing_slash_def eval_defs)

text \<open>
  Claim C5. A slot that is not empty before an auto-match pass is the same after it:
  its status, its assigned file and its confidence are unchanged, and so is the list
  of slots in length. The file object it refers to is not modified either, unless
  that object still has the status \<open>staged\<close>.
\<close>

theorem auto_match_keeps_filled_slots:
  "i < length (targetSlots s) \<Longrightarrow> ts_status (targetSlots s ! i) \<noteq> Empty \<Longrightarrow>
     length (targetSlots (autoAssignFiles lc rnd s)) = length (targetSlots s)
     \<and> targetSlots (autoAssignFiles lc rnd s) ! i = targetSlots s ! i
     \<and> (\<forall>a. ts_assignedFile (targetSlots s ! i) = Some a \<longrightarrow> sf_status (heap s ! a) \<noteq> Staged
            \<longrightarrow> heap (autoAssignFiles lc rnd s) ! a = heap s ! a)"
proof (cases "stagedFiles s = [] \<or> targetSlots s = []")
  case True
  then show ?thesis by (auto simp: autoAssignFiles_def)
next
  case False
  assume i: "i < length (targetSlots s)" and ne: "ts_status (targetSlots s ! i) \<noteq> Empty"
  from False pass_result [of s lc rnd] obtain st
    where inv: "pass_inv lc rnd (stagedFiles s) (heap s) (targetSlots s) st"
      and sl: "targetSlots (autoAssignFiles lc rnd s) = as_slots st"
      and hp: "heap (autoAssignFiles lc rnd s) = as_heap st"
    by blast
  note inv' = inv [unfolded pass_inv_def]
  from inv' have len: "length (as_slots st) = length (targetSlots s)" by blast
  from inv' i have "as_slots st ! i = targetSlots s ! i
      \<or> matched_from lc rnd (stagedFiles s) (heap s) (as_count st) (targetSlots s ! i) (as_slots st ! i)"
    by blast
  with ne have same: "as_slots st ! i = targetSlots s ! i"
    by (auto simp: matched_from_def)
  from inv' have frame: "\<forall>a. sf_status (heap s ! a) \<noteq> Staged \<longrightarrow> as_heap st ! a = heap s ! a"
    by blast
  from len same frame show ?thesis by (simp add: sl hp)
qed

theorem auto_match_keeps_filled_slots_witness:
  "1 < length (targetSlots example_store)
   \<and> ts_status (targetSlots example_store ! 1) = AutoMatched
   \<and> targetSlots (autoAssignFiles ascii_toLowerCase (draws [0]) example_store) ! 1
       = targetSlots example_store ! 1
   \<and> ts_assignedFile (targetSlots example_store ! 1) = Some 1
   \<and> heap (autoAssignFiles ascii_toLowerCase (draws [0]) example_store) ! 1
       = heap example_store ! 1"
proof -
  have h1: "1 < length (targetSlots example_store)" by (simp add: example_store_def)
  have s1: "ts_status (targetSlots example_store ! 1) = AutoMatched"
    by (simp add: example_store_def)
  then have h2: "ts_status (targetSlots example_store ! 1) \<noteq> Empty" by simp
  have a: "ts_assignedFile (targetSlots example_store ! 1) = Some 1"
    by (simp add: example_store_def)
  have b: "sf_status (heap example_store ! 1) \<noteq> Staged"
    by (simp add: example_store_def)
  from auto_match_keeps_filled_slots [OF h1 h2, of ascii_toLowerCase "draws [0]"] h1 s1 a b
  show ?thesis by blast
qed

text \<open>
  Claim C2, as the code has it. A slot that an auto-match pass changes was empty and
  becomes auto-matched to a file of the pool that was staged and whose lower-cased
  name contains the lower-cased extension of the slot's path (the text after its last
  dot); no similarity is computed and there is no threshold. With \<open>Math.random()\<close>
  in \<open>[0, 1)\<close>, the recorded confidence is \<open>75 + 20 r\<close> for one of its results
  \<open>r\<close>, a percentage between 75 and 95.
\<close>

theorem auto_match_confidence:
  "(\<forall>k. 0 \<le> rnd k \<and> rnd k < 1) \<Longrightarrow> i < length (targetSlots s) \<Longrightarrow>
   targetSlots (autoAssignFiles lc rnd s) ! i \<noteq> targetSlots s ! i \<Longrightarrow>
     ts_status (targetSlots s ! i) = Empty
     \<and> (\<exists>a c. targetSlots (autoAssignFiles lc rnd s) ! i
                 = (targetSlots s ! i)\<lparr>ts_assignedFile := Some a, ts_status := AutoMatched,
                                         ts_confidence := Some c\<rparr>
          \<and> (\<exists>k < length (targetSlots s). c = 75 + rnd k * 20) \<and> 75 \<le> c \<and> c \<le> 95
          \<and> a \<in> set (stagedFiles s) \<and> sf_status (heap s ! a) = Staged
          \<and> includes_sub (lc (sf_name (heap s ! a)))
               (lc (last (split 0x2E (ts_path (targetSlots s ! i))))))"
proof -
  assume rnd: "\<forall>k. 0 \<le> rnd k \<and> rnd k < 1" and i: "i < length (targetSlots s)"
    and changed: "targetSlots (autoAssignFiles lc rnd s) ! i \<noteq> targetSlots s ! i"
  from changed have ne: "stagedFiles s \<noteq> []" "targetSlots s \<noteq> []"
    by (auto simp: autoAssignFiles_def)
  from pass_count [OF ne, of lc rnd] obtain st
    where inv: "pass_inv lc rnd (stagedFiles s) (heap s) (targetSlots s) st"
      and cnt: "as_count st \<le> length (targetSlots s)"
      and sl: "targetSlots (autoAssignFiles lc rnd s) = as_slots st"
    by blast
  from inv [unfolded pass_inv_def] i have "as_slots st ! i = targetSlots s ! i
      \<or> matched_from lc rnd (stagedFiles s) (heap s) (as_count st) (targetSlots s ! i) (as_slots st ! i)"
    by blast
  with changed sl
  have "matched_from lc rnd (stagedFiles s) (heap s) (as_count st) (targetSlots s ! i) (as_slots st ! i)"
    by auto
  then obtain a k where m: "ts_status (targetSlots s ! i) = Empty"
    "as_slots st ! i = (targetSlots s ! i)\<lparr>ts_assignedFile := Some a, ts_status := AutoMatched,
                 ts_confidence := Some (75 + rnd k * 20)\<rparr>"
    "k < as_count st" "a \<in> set (stagedFiles s)" "sf_status (heap s ! a) = Staged"
    "includes_sub (lc (sf_name (heap s ! a))) (lc (last (split 0x2E (ts_path (targetSlots s ! i)))))"
    unfolding matched_from_def by blast
  from rnd have "0 \<le> rnd k" "rnd k < 1" by auto
  then have bounds: "75 \<le> 75 + rnd k * 20" "75 + rnd k * 20 \<le> 95" by auto
  from m(3) cnt have k: "k < length (targetSlots s)" by simp
  from m(1,2,4,5,6) bounds k show ?thesis
    unfolding sl by blast
qed

text \<open>
  Scenario B with the random result \<open>4/5\<close>: the slot \<open>invoice.pdf\<close> is matched to
  \<open>invoice_final.pdf\<close> with confidence 91.
\<close>

theorem auto_match_confidence_witness:
  "(\<forall>k. 0 \<le> draws [4/5] k \<and> draws [4/5] k < 1)
   \<and> targetSlots (autoAssignFiles ascii_toLowerCase (draws [4/5]) scenario_B) ! 0
       \<noteq> targetSlots scenario_B ! 0
   \<and> ts_status (targetSlots scenario_B ! 0) = Empty
   \<and> targetSlots (autoAssignFiles ascii_toLowerCase (draws [4/5]) scenario_B) =
     [\<lparr>ts_id = js ''slot_0'', ts_path = js ''invoice.pdf'', ts_type = File,
       ts_assignedFile = Some 0, ts_status = AutoMatched, ts_confidence = Some 91\<rparr>]"
proof -
  have h1: "\<forall>k. 0 \<le> draws [4/5] k \<and> draws [4/5] k < 1" by (simp add: draws_def)
  have h2: "0 < length (targetSlots scenario_B)" by (simp add: scenario_B_def)
  have v: "targetSlots (autoAssignFiles ascii_toLowerCase (draws [4/5]) scenario_B) =
     [\<lparr>ts_id = js ''slot_0'', ts_path = js ''invoice.pdf'', ts_type = File,
       ts_assignedFile = Some 0, ts_status = AutoMatched, ts_confidence = Some 91\<rparr>]"
    by (simp add: scenario_B_pass)
  have h3: "targetSlots (autoAssignFiles ascii_toLowerCase (draws [4/5]) scenario_B) ! 0
       \<noteq> targetSlots scenario_B ! 0"
    by (simp add: v) (simp add: scenario_B_def slot_of_def)
  from auto_match_confidence [OF h1 h2 h3] h1 h3 v show ?thesis by blast
qed

text \<open>
  Claim C2 as stated fails in scenario B: the slot is matched to the file, and with
  the random result 0 its confidence is 75, which is neither about 0.91 nor in
  \<open>[0, 1]\<close>.
\<close>

theorem scenario_B_confidence_counterexample:
  "targetSlots scenario_B =
     [\<lparr>ts_id = js ''slot_0'', ts_path = js ''invoice.pdf'', ts_type = File,
       ts_assignedFile = None, ts_status = Empty, ts_confidence = None\<rparr>]
   \<and> map sf_name (heap scenario_B) = [js ''invoice_final.pdf'']
   \<and> targetSlots (autoAssignFiles ascii_toLowerCase (draws [0]) scenario_B) =
     [\<lparr>ts_id = js ''slot_0'', ts_path = js ''invoice.pdf'', ts_type = File,
       ts_assignedFile = Some 0, ts_status = AutoMatched, ts_confidence = Some 75\<rparr>]
   \<and> \<not> (75 \<le> (1::real))"
  by (simp add: scenario_B_pass) (simp add: scenario_B_def slot_of_def toString_nat.simps js_def)

text \<open>
  Claim C1, as the code has it. Two auto-match passes over the same slots and pool
  end with the same file objects and the same slots up to the confidence values: the
  same files are assigned to the same slots. The confidence comes from
  \<open>Math.random()\<close>; when the two passes draw the same random results (one for each
  slot at most), their results are identical.
\<close>

theorem matching_deterministic_up_to_confidence:
  "heap (autoAssignFiles lc r1 s) = heap (autoAssignFiles lc r2 s)
   \<and> stagedFiles (autoAssignFiles lc r1 s) = stagedFiles (autoAssignFiles lc r2 s)
   \<and> map proposal (targetSlots (autoAssignFiles lc r1 s))
       = map proposal (targetSlots (autoAssignFiles lc r2 s))
   \<and> ((\<forall>k < length (targetSlots s). r1 k = r2 k)
        \<longrightarrow> autoAssignFiles lc r1 s = autoAssignFiles lc r2 s)"
proof -
  let ?st0 = "\<lparr>as_slots = targetSlots s, as_heap = heap s, as_count = 0\<rparr>"
  let ?idxs = "[0..<length (targetSlots s)]"
  have "same_proposals ?st0 ?st0" by (simp add: same_proposals_def)
  moreover have "\<forall>i \<in> set ?idxs. i < length (as_slots ?st0)" by simp
  ultimately have "same_proposals (foldl (assign_step lc r1 (stagedFiles s)) ?st0 ?idxs)
                    (foldl (assign_step lc r2 (stagedFiles s)) ?st0 ?idxs)"
    by (rule same_proposals_loop)
  then have a: "heap (autoAssignFiles lc r1 s) = heap (autoAssignFiles lc r2 s)"
    and b: "map proposal (targetSlots (autoAssignFiles lc r1 s))
       = map proposal (targetSlots (autoAssignFiles lc r2 s))"
    by (simp_all add: autoAssignFiles_def Let_def same_proposals_def)
  have c: "stagedFiles (autoAssignFiles lc r1 s) = stagedFiles (autoAssignFiles lc r2 s)"
    by (simp add: autoAssignFiles_def Let_def)
  have d: "autoAssignFiles lc r1 s = autoAssignFiles lc r2 s"
    if "\<forall>k < length (targetSlots s). r1 k = r2 k"
  proof -
    from that have "\<forall>k < as_count ?st0 + length ?idxs. r1 k = r2 k" by simp
    then have "foldl (assign_step lc r1 (stagedFiles s)) ?st0 ?idxs
             = foldl (assign_step lc r2 (stagedFiles s)) ?st0 ?idxs"
      by (rule same_draws_loop)
    then show ?thesis by (simp add: autoAssignFiles_def Let_def)
  qed
  from a b c d show ?thesis by blast
qed

theorem matching_deterministic_up_to_confidence_witness:
  "length (targetSlots scenario_B) = 1
   \<and> draws [1/2] 0 = draws [1/2, 3/4] 0
   \<and> draws [1/2] 1 \<noteq> draws [1/2, 3/4] 1
   \<and> autoAssignFiles ascii_toLowerCase (draws [1/2]) scenario_B
       = autoAssignFiles ascii_toLowerCase (draws [1/2, 3/4]) scenario_B"
proof -
  have l: "length (targetSlots scenario_B) = 1" by (simp add: scenario_B_def)
  have d: "draws [1/2] 0 = draws [1/2, 3/4] 0" "draws [1/2] 1 \<noteq> draws [1/2, 3/4] 1"
    by (simp_all add: draws_def)
  from l d have h: "\<forall>k < length (targetSlots scenario_B). draws [1/2] k = draws [1/2, 3/4] k"
    by simp
  from matching_deterministic_up_to_confidence
    [of ascii_toLowerCase "draws [1/2]" scenario_B "draws [1/2, 3/4]"] h l d
  show ?thesis by blast
qed

text \<open>
  Claim C1 as stated fails: on the same slot and pool, a pass whose random result is
  0 records the confidence 75 and a pass whose random result is 1/2 records 85.
\<close>

theorem matching_confidence_counterexample:
  "targetSlots (autoAssignFiles ascii_toLowerCase (draws [0]) scenario_B) =
     [\<lparr>ts_id = js ''slot_0'', ts_path = js ''invoice.pdf'', ts_type = File,
       ts_assignedFile = Some 0, ts_status = AutoMatched, ts_confidence = Some 75\<rparr>]
   \<and> targetSlots (autoAssignFiles ascii_toLowerCase (draws [1/2]) scenario_B) =
     [\<lparr>ts_id = js ''slot_0'', ts_path = js ''invoice.pdf'', ts_type = File,
       ts_assignedFile = Some 0, ts_status = AutoMatched, ts_confidence = Some 85\<rparr>]"
  by (simp add: scenario_B_pass)


section \<open>Assignment exclusivity\<close>

lemma held_files_Nil: "held_files [] = []"
  by (simp add: held_files_def assignments_of_def)

lemma held_files_append: "held_files (xs @ ys) = held_files xs @ held_files ys"
  by (simp add: held_files_def assignments_of_def)

lemma held_files_single:
  "held_files [t] = (case ts_assignedFile t of None \<Rightarrow> [] | Some a \<Rightarrow> [a])"
  by (simp add: held_files_def assignments_of_def split: option.splits)

lemma held_files_split:
  "i < length slots \<Longrightarrow>
     held_files slots = held_files (take i slots) @ held_files [slots ! i] @ held_files (drop (Suc i) slots)"
proof -
  assume "i < length slots"
  then have "slots = take i slots @ [slots ! i] @ drop (Suc i) slots"
    by (simp add: id_take_nth_drop [symmetric])
  then have "held_files slots = held_files (take i slots @ [slots ! i] @ drop (Suc i) slots)"
    by simp
  then show ?thesis by (simp only: held_files_append)
qed

lemma held_files_update:
  "i < length slots \<Longrightarrow>
     held_files (slots[i := t]) = held_files (take i slots) @ held_files [t] @ held_files (drop (Suc i) slots)"
proof -
  assume "i < length slots"
  then have "slots[i := t] = take i slots @ [t] @ drop (Suc i) slots"
    by (simp add: upd_conv_take_nth_drop)
  then show ?thesis by (simp only: held_files_append)
qed

lemma held_files_assign:
  assumes i: "i < length slots" and t: "ts_assignedFile t = Some a"
    and fresh: "a \<notin> set (held_files slots)" and d: "distinct (held_files slots)"
  shows "distinct (held_files (slots[i := t]))"
    and "set (held_files (slots[i := t])) \<subseteq> insert a (set (held_files slots))"
proof -
  define A where "A = held_files (take i slots)"
  define B where "B = held_files [slots ! i]"
  define C where "C = held_files (drop (Suc i) slots)"
  have old: "held_files slots = A @ B @ C"
    unfolding A_def B_def C_def by (rule held_files_split [OF i])
  have "held_files [t] = [a]" using t by (simp add: held_files_single)
  then have new: "held_files (slots[i := t]) = A @ [a] @ C"
    unfolding A_def C_def using held_files_update [OF i, of t] by simp
  have "distinct (A @ B @ C)" using d unfolding old .
  moreover have "a \<notin> set (A @ B @ C)" using fresh unfolding old .
  ultimately show "distinct (held_files (slots[i := t]))"
    by (auto simp: new)
  show "set (held_files (slots[i := t])) \<subseteq> insert a (set (held_files slots))"
    by (auto simp: new old)
qed

lemma store_invI:
  assumes "\<And>a. a \<in> set pool \<Longrightarrow> a < length h"
    and "\<And>a. a \<in> set (held_files slots) \<Longrightarrow> a < length h \<and> sf_status (h ! a) = Assigned"
    and "distinct (held_files slots)"
    and "\<And>a. a < length h \<Longrightarrow> \<exists>j < length pool.
        sf_id (h ! (pool ! j)) = sf_id (h ! a)
        \<and> (pool ! j = a \<or> sf_status (h ! (pool ! j)) = Organized)"
    and "\<And>a b. distinct (map (\<lambda>a. sf_id (h ! a)) pool) \<Longrightarrow> a < length h \<Longrightarrow> b < length h \<Longrightarrow>
           sf_status (h ! a) = Assigned \<Longrightarrow> sf_status (h ! b) = Assigned \<Longrightarrow>
           sf_id (h ! a) = sf_id (h ! b) \<Longrightarrow> a = b"
  shows "store_inv h pool slots"
  unfolding store_inv_def using assms by blast

lemma store_invD:
  assumes "store_inv h pool slots"
  shows "\<And>a. a \<in> set pool \<Longrightarrow> a < length h"
    and "\<And>a. a \<in> set (held_files slots) \<Longrightarrow> a < length h \<and> sf_status (h ! a) = Assigned"
    and "distinct (held_files slots)"
    and "\<And>a. a < length h \<Longrightarrow> \<exists>j < length pool.
        sf_id (h ! (pool ! j)) = sf_id (h ! a)
        \<and> (pool ! j = a \<or> sf_status (h ! (pool ! j)) = Organized)"
    and "\<And>a b. distinct (map (\<lambda>a. sf_id (h ! a)) pool) \<Longrightarrow> a < length h \<Longrightarrow> b < length h \<Longrightarrow>
           sf_status (h ! a) = Assigned \<Longrightarrow> sf_status (h ! b) = Assigned \<Longrightarrow>
           sf_id (h ! a) = sf_id (h ! b) \<Longrightarrow> a = b"
  using assms unfolding store_inv_def by blast+

lemma pool_index_unique:
  assumes d: "distinct (map g pool)" and j: "j < length pool" and k: "k < length pool"
    and e: "g (pool ! j) = g (pool ! k)"
  shows "j = k"
proof -
  from j k e have "map g pool ! j = map g pool ! k" by simp
  moreover from j k have "j < length (map g pool)" "k < length (map g pool)" by simp_all
  ultimately show ?thesis using d nth_eq_iff_index_eq by blast
qed

lemma store_inv_assign:
  assumes inv: "store_inv h pool slots" and i: "i < length slots"
    and a: "a \<in> set pool" and st: "sf_status (h ! a) = Staged"
    and t: "ts_assignedFile t = Some a"
    and f: "sf_id f = sf_id (h ! a)" "sf_status f = Assigned"
  shows "store_inv (h[a := f]) pool (slots[i := t])"
proof (rule store_invI)
  note D = store_invD [OF inv]
  have al: "a < length h" using a by (rule D(1))
  have ids: "sf_id (h[a := f] ! b) = sf_id (h ! b)" for b
    using f(1) by (simp add: nth_list_update_any)
  have fresh: "a \<notin> set (held_files slots)"
  proof
    assume "a \<in> set (held_files slots)"
    then have "sf_status (h ! a) = Assigned" using D(2) by blast
    with st show False by simp
  qed
  note H = held_files_assign [OF i t fresh D(3)]
  show "b < length (h[a := f])" if "b \<in> set pool" for b
    using D(1) [OF that] by simp
  show "b < length (h[a := f]) \<and> sf_status (h[a := f] ! b) = Assigned"
    if "b \<in> set (held_files (slots[i := t]))" for b
  proof (cases "b = a")
    case True
    with al f(2) show ?thesis by simp
  next
    case False
    with that H(2) have "b \<in> set (held_files slots)" by auto
    from D(2) [OF this] False show ?thesis by simp
  qed
  show "distinct (held_files (slots[i := t]))" by (rule H(1))
  show "\<exists>j < length pool. sf_id (h[a := f] ! (pool ! j)) = sf_id (h[a := f] ! b)
        \<and> (pool ! j = b \<or> sf_status (h[a := f] ! (pool ! j)) = Organized)"
    if "b < length (h[a := f])" for b
  proof -
    from that have "b < length h" by simp
    from D(4) [OF this] obtain j where j: "j < length pool"
      "sf_id (h ! (pool ! j)) = sf_id (h ! b)"
      "pool ! j = b \<or> sf_status (h ! (pool ! j)) = Organized"
      by blast
    from j(3) have "pool ! j = b \<or> sf_status (h[a := f] ! (pool ! j)) = Organized"
    proof
      assume "pool ! j = b" then show ?thesis by simp
    next
      assume o: "sf_status (h ! (pool ! j)) = Organized"
      with st have "pool ! j \<noteq> a" by auto
      with o show ?thesis by simp
    qed
    with j(1,2) show ?thesis unfolding ids by blast
  qed
  show "b = c"
    if dist: "distinct (map (\<lambda>a'. sf_id (h[a := f] ! a')) pool)"
      and b: "b < length (h[a := f])" and c: "c < length (h[a := f])"
      and sb: "sf_status (h[a := f] ! b) = Assigned" and sc: "sf_status (h[a := f] ! c) = Assigned"
      and e: "sf_id (h[a := f] ! b) = sf_id (h[a := f] ! c)" for b c
  proof -
    from dist have dist0: "distinct (map (\<lambda>a'. sf_id (h ! a')) pool)" unfolding ids .
    from b c have bl: "b < length h" and cl: "c < length h" by simp_all
    from e have e0: "sf_id (h ! b) = sf_id (h ! c)" unfolding ids .
    from a obtain ja where ja: "ja < length pool" "pool ! ja = a"
      by (auto simp: in_set_conv_nth)
    have other: "x = a" if xl: "x < length h" and xs: "sf_status (h ! x) = Assigned"
      and xe: "sf_id (h ! x) = sf_id (h ! a)" for x
    proof -
      from D(4) [OF xl] obtain j where j: "j < length pool"
        "sf_id (h ! (pool ! j)) = sf_id (h ! x)"
        "pool ! j = x \<or> sf_status (h ! (pool ! j)) = Organized"
        by blast
      from j(2) xe ja(2) have "sf_id (h ! (pool ! j)) = sf_id (h ! (pool ! ja))" by simp
      with dist0 j(1) ja(1) have "j = ja"
        by (rule pool_index_unique [where g = "\<lambda>a'. sf_id (h ! a')"])
      with ja(2) have "pool ! j = a" by simp
      with j(3) st show ?thesis by auto
    qed
    show ?thesis
    proof (cases "b = a")
      case True
      show ?thesis
      proof (cases "c = a")
        case True
        with \<open>b = a\<close> show ?thesis by simp
      next
        case False
        with sc have "sf_status (h ! c) = Assigned" by simp
        from other [OF cl this] e0 True False show ?thesis by simp
      qed
    next
      case False
      with sb have sb0: "sf_status (h ! b) = Assigned" by simp
      show ?thesis
      proof (cases "c = a")
        case True
        from other [OF bl sb0] e0 True False show ?thesis by simp
      next
        case False
        with sc have "sf_status (h ! c) = Assigned" by simp
        from D(5) [OF dist0 bl cl sb0 this e0] show ?thesis .
      qed
    qed
  qed
qed

lemma store_inv_step:
  assumes inv: "store_inv (as_heap st) pool (as_slots st)" and i: "i < length (as_slots st)"
  shows "store_inv (as_heap (assign_step lc rnd pool st i)) pool
           (as_slots (assign_step lc rnd pool st i))"
proof (cases rule: assign_step_cases [of lc rnd pool st i])
  case skip
  with inv show ?thesis by simp
next
  case (hit a)
  from hit(3) have st: "sf_status (as_heap st ! a) = Staged" by (simp add: matches_def)
  have "store_inv ((as_heap st)[a := (as_heap st ! a)\<lparr>sf_status := Assigned,
                      sf_targetPath := Some (ts_path (as_slots st ! i))\<rparr>]) pool
          ((as_slots st)[i := (as_slots st ! i)\<lparr>ts_assignedFile := Some a, ts_status := AutoMatched,
                      ts_confidence := Some (75 + rnd (as_count st) * 20)\<rparr>])"
    by (rule store_inv_assign [OF inv i hit(2) st]) simp_all
  then show ?thesis by (simp add: hit(4))
qed

lemma store_inv_pass:
  assumes inv: "store_inv (heap s) (stagedFiles s) (targetSlots s)"
  shows "store_inv (heap (autoAssignFiles lc rnd s)) (stagedFiles (autoAssignFiles lc rnd s))
           (targetSlots (autoAssignFiles lc rnd s))"
proof (cases "stagedFiles s = [] \<or> targetSlots s = []")
  case True
  with inv show ?thesis by (auto simp: autoAssignFiles_def)
next
  case False
  let ?P = "\<lambda>st :: assign_state. store_inv (as_heap st) (stagedFiles s) (as_slots st)
              \<and> length (as_slots st) = length (targetSlots s)"
  have "?P (foldl (assign_step lc rnd (stagedFiles s))
          \<lparr>as_slots = targetSlots s, as_heap = heap s, as_count = 0\<rparr>
          [0..<length (targetSlots s)])"
  proof (rule foldl_preserves [where P = ?P])
    show "?P \<lparr>as_slots = targetSlots s, as_heap = heap s, as_count = 0\<rparr>"
      using inv by simp
  next
    fix st i
    assume "?P st" and "i \<in> set [0..<length (targetSlots s)]"
    then show "?P (assign_step lc rnd (stagedFiles s) st i)"
      by (simp add: store_inv_step assign_step_length)
  qed
  with False show ?thesis by (simp add: autoAssignFiles_def Let_def)
qed

lemma store_inv_initial: "store_inv [] [] []"
  by (rule store_invI) (simp_all add: held_files_Nil)

lemma store_inv_add:
  assumes inv: "store_inv h pool slots"
    and f: "sf_status f1 = Staged" "sf_status f2 = Staged"
    and h': "h' = h @ [f1, f2]" and pool': "pool' = pool @ [length h, length h + 1]"
  shows "store_inv h' pool' slots"
proof (rule store_invI)
  note D = store_invD [OF inv]
  have len: "length h' = length h + 2" by (simp add: h')
  have lp: "length pool' = length pool + 2" by (simp add: pool')
  have old: "h' ! b = h ! b" if "b < length h" for b
    using that by (simp add: h' nth_append)
  have pj: "pool' ! j = pool ! j" if "j < length pool" for j
    using that by (simp add: pool' nth_append)
  have pn: "pool' ! length pool = length h" "pool' ! (length pool + 1) = length h + 1"
    by (simp_all add: pool' nth_append)
  have sp: "set pool' = set pool \<union> {length h, length h + 1}"
    by (auto simp: pool')
  have oldp: "h' ! (pool ! j) = h ! (pool ! j)" if "j < length pool" for j
    using that D(1) by (simp add: old)
  have new: "sf_status (h' ! b) = Staged" if "length h \<le> b" "b < length h'" for b
  proof -
    from that len have "b = length h \<or> b = length h + 1" by auto
    then show ?thesis using f by (auto simp: h' nth_append)
  qed
  show "b < length h'" if "b \<in> set pool'" for b
  proof -
    from that sp have "b \<in> set pool \<or> b = length h \<or> b = length h + 1" by auto
    then show ?thesis using D(1) [of b] len by auto
  qed
  show "b < length h' \<and> sf_status (h' ! b) = Assigned" if "b \<in> set (held_files slots)" for b
    using D(2) [OF that] len by (simp add: old)
  show "distinct (held_files slots)" by (rule D(3))
  show "\<exists>j < length pool'. sf_id (h' ! (pool' ! j)) = sf_id (h' ! b)
        \<and> (pool' ! j = b \<or> sf_status (h' ! (pool' ! j)) = Organized)"
    if "b < length h'" for b
  proof (cases "b < length h")
    case True
    from D(4) [OF True] obtain j where j: "j < length pool"
      "sf_id (h ! (pool ! j)) = sf_id (h ! b)"
      "pool ! j = b \<or> sf_status (h ! (pool ! j)) = Organized"
      by blast
    from j(1) lp have "j < length pool'" by simp
    moreover from j have "sf_id (h' ! (pool' ! j)) = sf_id (h' ! b)"
      by (simp add: pj oldp old True)
    moreover from j have "pool' ! j = b \<or> sf_status (h' ! (pool' ! j)) = Organized"
      by (simp add: pj oldp)
    ultimately show ?thesis by blast
  next
    case False
    with that len have "b = length h \<or> b = length h + 1" by auto
    then show ?thesis
    proof
      assume "b = length h"
      with pn(1) lp show ?thesis by (intro exI [of _ "length pool"]) simp
    next
      assume "b = length h + 1"
      with pn(2) lp show ?thesis by (intro exI [of _ "length pool + 1"]) simp
    qed
  qed
  show "b = c"
    if dist: "distinct (map (\<lambda>a. sf_id (h' ! a)) pool')"
      and b: "b < length h'" and c: "c < length h'"
      and sb: "sf_status (h' ! b) = Assigned" and sc: "sf_status (h' ! c) = Assigned"
      and e: "sf_id (h' ! b) = sf_id (h' ! c)" for b c
  proof -
    have m: "map (\<lambda>a. sf_id (h' ! a)) pool = map (\<lambda>a. sf_id (h ! a)) pool"
      using D(1) by (simp add: old)
    from dist have "distinct (map (\<lambda>a. sf_id (h' ! a)) pool)"
      by (simp add: pool')
    then have dist0: "distinct (map (\<lambda>a. sf_id (h ! a)) pool)" unfolding m .
    have bl: "b < length h"
    proof (rule ccontr)
      assume "\<not> b < length h"
      with new [of b] b sb show False by simp
    qed
    have cl: "c < length h"
    proof (rule ccontr)
      assume "\<not> c < length h"
      with new [of c] c sc show False by simp
    qed
    from sb sc e bl cl have "sf_status (h ! b) = Assigned" "sf_status (h ! c) = Assigned"
      "sf_id (h ! b) = sf_id (h ! c)" by (simp_all add: old)
    with D(5) [OF dist0 bl cl] show ?thesis by blast
  qed
qed

lemma store_inv_addFilesToStage:
  assumes "store_inv (heap s) (stagedFiles s) (targetSlots s)"
  shows "store_inv (heap (addFilesToStage now1 now2 size1 size2 s))
           (stagedFiles (addFilesToStage now1 now2 size1 size2 s))
           (targetSlots (addFilesToStage now1 now2 size1 size2 s))"
proof -
  let ?s' = "addFilesToStage now1 now2 size1 size2 s"
  have "store_inv (heap ?s') (stagedFiles ?s') (targetSlots s)"
    by (rule store_inv_add [OF assms, where ?f1.0 = "heap ?s' ! length (heap s)"
          and ?f2.0 = "heap ?s' ! (length (heap s) + 1)"])
       (simp_all add: addFilesToStage_def Let_def nth_append)
  moreover have "targetSlots ?s' = targetSlots s"
    by (simp add: addFilesToStage_def Let_def)
  ultimately show ?thesis by simp
qed

lemma built_slots_hold_nothing:
  assumes "buildTargetStructure d = Some slots"
  shows "held_files slots = []"
proof -
  from assms have "slots = map (\<lambda>(i, t). slot_of i t)
               (filter (\<lambda>(i, t). is_file_token t) (enumerate 0 (map trim (nonblank_lines d))))"
    by (auto simp: buildTargetStructure_def foldl_build_line split: if_splits)
  then have "\<forall>t \<in> set slots. ts_assignedFile t = None"
    by (auto simp: slot_of_def)
  then show ?thesis
    by (simp add: held_files_def assignments_of_def filter_empty_conv)
qed

lemma store_inv_no_slots:
  assumes inv: "store_inv h pool slots" and e: "held_files slots' = []"
  shows "store_inv h pool slots'"
proof (rule store_invI)
  note D = store_invD [OF inv]
  show "\<And>a. a \<in> set pool \<Longrightarrow> a < length h" by (rule D(1))
  show "\<And>a. a \<in> set (held_files slots') \<Longrightarrow> a < length h \<and> sf_status (h ! a) = Assigned"
    by (simp add: e)
  show "distinct (held_files slots')" by (simp add: e)
  show "\<And>a. a < length h \<Longrightarrow> \<exists>j < length pool.
        sf_id (h ! (pool ! j)) = sf_id (h ! a)
        \<and> (pool ! j = a \<or> sf_status (h ! (pool ! j)) = Organized)" by (rule D(4))
  show "\<And>a b. distinct (map (\<lambda>a. sf_id (h ! a)) pool) \<Longrightarrow> a < length h \<Longrightarrow> b < length h \<Longrightarrow>
           sf_status (h ! a) = Assigned \<Longrightarrow> sf_status (h ! b) = Assigned \<Longrightarrow>
           sf_id (h ! a) = sf_id (h ! b) \<Longrightarrow> a = b" by (rule D(5))
qed

lemma store_inv_build:
  assumes "store_inv (heap s) (stagedFiles s) (targetSlots s)"
  shows "store_inv (heap (buildTargetStructure_op s)) (stagedFiles (buildTargetStructure_op s))
           (targetSlots (buildTargetStructure_op s))"
proof (cases "buildTargetStructure (targetStructure s)")
  case None
  with assms show ?thesis by (simp add: buildTargetStructure_op_def)
next
  case (Some slots)
  from store_inv_no_slots [OF assms built_slots_hold_nothing [OF Some]] Some
  show ?thesis by (simp add: buildTargetStructure_op_def)
qed

lemma alloc_copies_props:
  "alloc_copies h xs = (h', pool') \<Longrightarrow>
     length pool' = length xs
     \<and> length h \<le> length h'
     \<and> (\<forall>b < length h. h' ! b = h ! b)
     \<and> (\<forall>j < length xs.
           (snd (xs ! j) = None \<and> pool' ! j = fst (xs ! j))
           \<or> (\<exists>f. snd (xs ! j) = Some f \<and> length h \<le> pool' ! j \<and> pool' ! j < length h'
                  \<and> h' ! (pool' ! j) = f))
     \<and> (\<forall>c. length h \<le> c \<longrightarrow> c < length h' \<longrightarrow>
           (\<exists>j < length xs. pool' ! j = c \<and> snd (xs ! j) \<noteq> None))"
proof (induction h xs arbitrary: h' pool' rule: alloc_copies.induct)
  case (1 h)
  then show ?case by simp
next
  case (2 h a xs)
  from "2.prems" obtain as where r: "alloc_copies h xs = (h', as)" and p: "pool' = a # as"
    by (auto split: prod.splits)
  note IH = "2.IH" [OF r]
  from IH have l: "length as = length xs" and le: "length h \<le> length h'"
    and old: "\<forall>b < length h. h' ! b = h ! b" by blast+
  from IH have pos: "\<And>j. j < length xs \<Longrightarrow>
           (snd (xs ! j) = None \<and> as ! j = fst (xs ! j))
           \<or> (\<exists>f. snd (xs ! j) = Some f \<and> length h \<le> as ! j \<and> as ! j < length h'
                  \<and> h' ! (as ! j) = f)" by blast
  from IH have fresh: "\<And>c. length h \<le> c \<Longrightarrow> c < length h' \<Longrightarrow>
           (\<exists>j < length xs. as ! j = c \<and> snd (xs ! j) \<noteq> None)" by blast
  have c4: "(snd (((a, None) # xs) ! j) = None \<and> pool' ! j = fst (((a, None) # xs) ! j))
           \<or> (\<exists>f. snd (((a, None) # xs) ! j) = Some f \<and> length h \<le> pool' ! j
                  \<and> pool' ! j < length h' \<and> h' ! (pool' ! j) = f)"
    if "j < length ((a, None) # xs)" for j
  proof (cases j)
    case 0
    then show ?thesis by (simp add: p)
  next
    case (Suc k)
    with that have "k < length xs" by simp
    from pos [OF this] Suc show ?thesis by (simp add: p)
  qed
  have c5: "\<exists>j < length ((a, None) # xs). pool' ! j = c \<and> snd (((a, None) # xs) ! j) \<noteq> None"
    if "length h \<le> c" "c < length h'" for c
  proof -
    from fresh [OF that] obtain k where "k < length xs" "as ! k = c" "snd (xs ! k) \<noteq> None"
      by blast
    then show ?thesis by (intro exI [of _ "Suc k"]) (simp add: p)
  qed
  from l le old c4 c5 show ?case by (simp add: p)
next
  case (3 h a f xs)
  from "3.prems" obtain as where r: "alloc_copies (h @ [f]) xs = (h', as)"
    and p: "pool' = length h # as"
    by (auto split: prod.splits)
  note IH = "3.IH" [OF r]
  from IH have l: "length as = length xs" and le: "length h + 1 \<le> length h'"
    and old': "\<forall>b < length h + 1. h' ! b = (h @ [f]) ! b" by simp_all
  from IH have pos: "\<And>j. j < length xs \<Longrightarrow>
           (snd (xs ! j) = None \<and> as ! j = fst (xs ! j))
           \<or> (\<exists>f'. snd (xs ! j) = Some f' \<and> length h + 1 \<le> as ! j \<and> as ! j < length h'
                  \<and> h' ! (as ! j) = f')" by simp
  from IH have fresh: "\<And>c. length h + 1 \<le> c \<Longrightarrow> c < length h' \<Longrightarrow>
           (\<exists>j < length xs. as ! j = c \<and> snd (xs ! j) \<noteq> None)" by simp
  from old' have old: "\<forall>b < length h. h' ! b = h ! b" by (simp add: nth_append)
  from old' have hf: "h' ! length h = f" by (simp add: nth_append)
  have c4: "(snd (((a, Some f) # xs) ! j) = None \<and> pool' ! j = fst (((a, Some f) # xs) ! j))
           \<or> (\<exists>f'. snd (((a, Some f) # xs) ! j) = Some f' \<and> length h \<le> pool' ! j
                  \<and> pool' ! j < length h' \<and> h' ! (pool' ! j) = f')"
    if "j < length ((a, Some f) # xs)" for j
  proof (cases j)
    case 0
    with le hf show ?thesis by (simp add: p)
  next
    case (Suc k)
    with that have "k < length xs" by simp
    from pos [OF this] Suc show ?thesis by (auto simp: p)
  qed
  have c5: "\<exists>j < length ((a, Some f) # xs). pool' ! j = c \<and> snd (((a, Some f) # xs) ! j) \<noteq> None"
    if "length h \<le> c" "c < length h'" for c
  proof (cases "c = length h")
    case True
    then show ?thesis by (intro exI [of _ 0]) (simp add: p)
  next
    case False
    with that have "length h + 1 \<le> c" by simp
    from fresh [OF this that(2)] obtain k
      where "k < length xs" "as ! k = c" "snd (xs ! k) \<noteq> None" by blast
    then show ?thesis by (intro exI [of _ "Suc k"]) (simp add: p)
  qed
  from l le old c4 c5 show ?case by (simp add: p)
qed

lemma organized_copy_shape:
  "fst (organized_copy h asgs a) = a
   \<and> (snd (organized_copy h asgs a) = None
        \<or> snd (organized_copy h asgs a) = Some ((h ! a)\<lparr>sf_status := Organized\<rparr>))"
  by (simp add: organized_copy_def split: option.splits)

lemma store_inv_alloc:
  assumes inv: "store_inv h pool slots"
    and r: "alloc_copies h (map (organized_copy h asgs) pool) = (h', pool')"
  shows "store_inv h' pool' slots"
proof (rule store_invI)
  note D = store_invD [OF inv]
  note P = alloc_copies_props [OF r]
  let ?xs = "map (organized_copy h asgs) pool"
  from P have lp: "length pool' = length pool" by simp
  from P have le: "length h \<le> length h'" by blast
  from P have old: "h' ! b = h ! b" if "b < length h" for b using that by blast
  have pos: "(pool' ! j = pool ! j \<and> h' ! (pool' ! j) = h ! (pool ! j))
           \<or> (length h \<le> pool' ! j \<and> pool' ! j < length h'
               \<and> h' ! (pool' ! j) = (h ! (pool ! j))\<lparr>sf_status := Organized\<rparr>)"
    if j: "j < length pool" for j
  proof -
    from j have jx: "j < length ?xs" by simp
    from P jx have "(snd (?xs ! j) = None \<and> pool' ! j = fst (?xs ! j))
           \<or> (\<exists>f. snd (?xs ! j) = Some f \<and> length h \<le> pool' ! j \<and> pool' ! j < length h'
                  \<and> h' ! (pool' ! j) = f)" by blast
    moreover from j have x: "?xs ! j = organized_copy h asgs (pool ! j)" by simp
    moreover from j have "pool ! j < length h" using D(1) by simp
    then have "h' ! (pool ! j) = h ! (pool ! j)" by (rule old)
    ultimately show ?thesis
      using organized_copy_shape [of h asgs "pool ! j"] by auto
  qed
  have newst: "sf_status (h' ! c) = Organized" if c: "length h \<le> c" "c < length h'" for c
  proof -
    from P c obtain j where j: "j < length ?xs" "pool' ! j = c" "snd (?xs ! j) \<noteq> None"
      by blast
    then have jl: "j < length pool" by simp
    from pos [OF jl] j(2) c(1) D(1) [of "pool ! j"] jl
    have "h' ! c = (h ! (pool ! j))\<lparr>sf_status := Organized\<rparr>" by auto
    then show ?thesis by simp
  qed
  have idp: "sf_id (h' ! (pool' ! j)) = sf_id (h ! (pool ! j))" if "j < length pool" for j
    using pos [OF that] by auto
  have ids: "map (\<lambda>a. sf_id (h' ! a)) pool' = map (\<lambda>a. sf_id (h ! a)) pool"
    by (rule nth_equalityI) (simp_all add: lp idp)
  show "b < length h'" if "b \<in> set pool'" for b
  proof -
    from that lp obtain j where j: "j < length pool" "pool' ! j = b"
      by (auto simp: in_set_conv_nth)
    from pos [OF j(1)] j(2) D(1) [of "pool ! j"] j(1) le show ?thesis by auto
  qed
  show "b < length h' \<and> sf_status (h' ! b) = Assigned" if "b \<in> set (held_files slots)" for b
    using D(2) [OF that] le by (simp add: old)
  show "distinct (held_files slots)" by (rule D(3))
  show "\<exists>j < length pool'. sf_id (h' ! (pool' ! j)) = sf_id (h' ! b)
        \<and> (pool' ! j = b \<or> sf_status (h' ! (pool' ! j)) = Organized)"
    if b: "b < length h'" for b
  proof (cases "b < length h")
    case True
    from D(4) [OF True] obtain j where j: "j < length pool"
      "sf_id (h ! (pool ! j)) = sf_id (h ! b)"
      "pool ! j = b \<or> sf_status (h ! (pool ! j)) = Organized"
      by blast
    have "sf_id (h' ! (pool' ! j)) = sf_id (h' ! b)"
      using idp [OF j(1)] j(2) old [OF True] by simp
    moreover have "pool' ! j = b \<or> sf_status (h' ! (pool' ! j)) = Organized"
      using pos [OF j(1)] j(3) by auto
    ultimately show ?thesis using j(1) lp by auto
  next
    case False
    with P b obtain j where "j < length ?xs" "pool' ! j = b"
      by (metis not_less)
    then show ?thesis using lp by auto
  qed
  show "b = c"
    if dist: "distinct (map (\<lambda>a. sf_id (h' ! a)) pool')"
      and b: "b < length h'" and c: "c < length h'"
      and sb: "sf_status (h' ! b) = Assigned" and sc: "sf_status (h' ! c) = Assigned"
      and e: "sf_id (h' ! b) = sf_id (h' ! c)" for b c
  proof -
    from dist have dist0: "distinct (map (\<lambda>a. sf_id (h ! a)) pool)" unfolding ids .
    have bl: "b < length h"
    proof (rule ccontr)
      assume "\<not> b < length h"
      with newst [of b] b sb show False by simp
    qed
    have cl: "c < length h"
    proof (rule ccontr)
      assume "\<not> c < length h"
      with newst [of c] c sc show False by simp
    qed
    from sb sc e bl cl have "sf_status (h ! b) = Assigned" "sf_status (h ! c) = Assigned"
      "sf_id (h ! b) = sf_id (h ! c)" by (simp_all add: old)
    with D(5) [OF dist0 bl cl] show ?thesis by blast
  qed
qed

lemma store_inv_organize:
  assumes inv: "store_inv (heap s) (stagedFiles s) (targetSlots s)"
  shows "store_inv (heap (organizeAssignedFiles s)) (stagedFiles (organizeAssignedFiles s))
           (targetSlots (organizeAssignedFiles s))"
proof -
  obtain h' pool' where r: "alloc_copies (heap s)
      (map (organized_copy (heap s) (assignments_of (targetSlots s))) (stagedFiles s)) = (h', pool')"
    by (cases "alloc_copies (heap s)
      (map (organized_copy (heap s) (assignments_of (targetSlots s))) (stagedFiles s))")
  from store_inv_alloc [OF inv r] have "store_inv h' pool' (targetSlots s)" .
  with inv r show ?thesis
    by (simp add: organizeAssignedFiles_def Let_def split: result.splits)
qed

lemma store_inv_step_event:
  assumes "store_inv (heap s) (stagedFiles s) (targetSlots s)"
  shows "store_inv (heap (step lc s e)) (stagedFiles (step lc s e)) (targetSlots (step lc s e))"
proof (cases e)
  case (AddFiles now1 now2 size1 size2)
  with store_inv_addFilesToStage [OF assms] show ?thesis by simp
next
  case (SetTargetStructure d)
  with assms show ?thesis by simp
next
  case BuildTargetStructure
  with store_inv_build [OF assms] show ?thesis by simp
next
  case (AutoAssign rnd)
  with store_inv_pass [OF assms] show ?thesis by simp
next
  case OrganizeAssigned
  with store_inv_organize [OF assms] show ?thesis by simp
qed

lemma store_inv_run:
  "store_inv (heap (run lc events)) (stagedFiles (run lc events)) (targetSlots (run lc events))"
proof (induction events rule: rev_induct)
  case Nil
  show ?case by (simp add: run_def initial_store_def store_inv_initial)
next
  case (snoc e events)
  from store_inv_step_event [OF snoc, of lc e] show ?case by (simp add: run_def)
qed

text \<open>
  What the store does guarantee. Slots refer to file objects, and an auto-match pass
  takes only files with status \<open>staged\<close> and marks each file it assigns. So in
  every state reached by handlers that each run to their end, no file object is the
  assigned file of two slots, and two slots can hold files with the same id only
  when two staged files have the same id.
\<close>

lemma file_object_exclusive: "distinct (assigned_files (run lc events))"
proof -
  have "assigned_files (run lc events) = held_files (targetSlots (run lc events))"
    by (simp add: assigned_files_def held_files_def)
  with store_invD(3) [OF store_inv_run [of lc events]] show ?thesis by simp
qed

lemma shared_id_needs_equal_staged_ids:
  assumes ds: "distinct (staged_ids (run lc events))"
  shows "distinct (assigned_ids (run lc events))"
proof -
  let ?s = "run lc events"
  note D = store_invD [OF store_inv_run [of lc events]]
  have af: "assigned_files ?s = held_files (targetSlots ?s)"
    by (simp add: assigned_files_def held_files_def)
  from ds have dist: "distinct (map (\<lambda>a. sf_id (heap ?s ! a)) (stagedFiles ?s))"
    by (simp add: staged_ids_def)
  have "inj_on (\<lambda>a. sf_id (heap ?s ! a)) (set (assigned_files ?s))"
  proof (rule inj_onI)
    fix a b
    assume "a \<in> set (assigned_files ?s)" "b \<in> set (assigned_files ?s)"
      and e: "sf_id (heap ?s ! a) = sf_id (heap ?s ! b)"
    then have "a \<in> set (held_files (targetSlots ?s))" "b \<in> set (held_files (targetSlots ?s))"
      by (simp_all add: af)
    from D(2) [OF this(1)] D(2) [OF this(2)] D(5) [OF dist, of a b] e show "a = b" by blast
  qed
  with file_object_exclusive [of lc events] show ?thesis
    by (simp add: assigned_ids_def distinct_map)
qed

text \<open>
  Claim C4 fails on the code, through the ids that \<open>addFilesToStage\<close> issues. The
  ids of a staging are \<open>Date.now()\<close> and \<open>Date.now() + 1\<close>, which keeps the two
  files of one staging apart but not the files of two stagings: when the clock reads
  1000 at the first staging and 1001 at the second, \<open>image_1.jpg\<close> and
  \<open>document_3.pdf\<close> both get the id 1001. After the structure \<open>a.pdf\<close>,
  \<open>b.jpg\<close>, \<open>c.pdf\<close> is built and one auto-match pass has run, the slots
  \<open>b.jpg\<close> and \<open>c.pdf\<close> hold these two files: the file id 1001 is the id of the
  assigned file of two slots.
\<close>

theorem close_stagings_share_id:
  "map (\<lambda>a. sf_name (heap (run ascii_toLowerCase collision_events) ! a))
       (stagedFiles (run ascii_toLowerCase collision_events))
     = [js ''document_1.pdf'', js ''image_1.jpg'', js ''document_3.pdf'', js ''image_3.jpg'']
   \<and> staged_ids (run ascii_toLowerCase collision_events)
     = [js ''1000'', js ''1001'', js ''1001'', js ''1002'']
   \<and> map ts_path (targetSlots (run ascii_toLowerCase collision_events))
     = [js ''a.pdf'', js ''b.jpg'', js ''c.pdf'']
   \<and> assigned_files (run ascii_toLowerCase collision_events) = [0, 1, 2]
   \<and> assigned_ids (run ascii_toLowerCase collision_events)
     = [js ''1000'', js ''1001'', js ''1001'']"
  by (simp add: run_def collision_events_def initial_store_def
      addFilesToStage_def buildTargetStructure_op_def buildTargetStructure_def nonblank_lines_def
      build_line_def enumerate_eq_zip trim_def trimStart_def trimEnd_def isWhiteSpace_def
      endsWith_def replace_trailing_slash_def eval_defs
      staged_ids_def assigned_ids_def assigned_files_def assignments_of_def)

end
